theory Spec2Isabelle
  imports Main "HOL-Library.AList"
begin

section \<open>Data model\<close>

text \<open>
  The ledger of \<^verbatim>\<open>voting_with_delegation.py\<close>. Python's dictionaries keep their keys in
  insertion order and \<^verbatim>\<open>get_effective_voting_power_map\<close> iterates over one, so every
  dictionary is an association list: \<^verbatim>\<open>d[k] = v\<close> is \<open>AList.update k v d\<close> (in place
  when the key is present, appended otherwise), \<^verbatim>\<open>d.pop(k, None)\<close> is
  \<open>AList.delete k d\<close>, \<^verbatim>\<open>k in d\<close> is \<open>map_of d k \<noteq> None\<close> and
  \<^verbatim>\<open>d.get(k, v)\<close> is \<open>dict_get d k v\<close>. Python's integers are unbounded: \<open>int\<close>.
\<close>

type_synonym address = string

definition to_checksum_address :: "string \<Rightarrow> address" where
  \<comment> \<open>Modelled from the spec: \<^verbatim>\<open>eth_utils.to_checksum_address\<close> is a library function
      outside the repository. The spec's Address is "a canonical, case-normalized
      fixed-length identifier" with "equality exact on the canonical form"; the type
      \<open>address\<close> stands for that canonical form, on which canonicalization changes nothing.\<close>
  "to_checksum_address a = a"

definition dict_get :: "('k \<times> 'v) list \<Rightarrow> 'k \<Rightarrow> 'v \<Rightarrow> 'v" where
  "dict_get d k dflt = (case map_of d k of None \<Rightarrow> dflt | Some v \<Rightarrow> v)"

record DelegationMessage =
  msg_delegator :: address
  msg_delegatee :: address
  msg_nonce :: int
  msg_deadline :: int

text \<open>
  \<^verbatim>\<open>EIP712DelegationVerifier.recover_delegator\<close> hashes the typed message and recovers the
  signer with \<^verbatim>\<open>eth_account\<close>, a library outside the repository. It is a parameter of the
  model: a function of the message and the signature, \<open>None\<close> when the library raises.
\<close>

type_synonym verifier = "DelegationMessage \<Rightarrow> string \<Rightarrow> address option"

datatype error =
    InvalidWeight
  | Expired
  | NonceMismatch
  | SignatureInvalid
  | NotDelegator
  | CycleDetected
  | DuplicateProposal
  | InvalidClosingTime
  | UnknownProposal
  | InvalidChoice
  | VotingClosed
  | DelegatedVoterCannotVote
  | AlreadyVoted
  | NoVotingPower
  | KeyError

record proposal =
  p_title :: string
  p_description :: string
  p_closes_at :: int
  tallies :: "(string \<times> int) list"
  voted :: "address set"

record ledger =
  voter_weight :: "(address \<times> int) list"
  delegate_of :: "(address \<times> address) list"
  nonce_of :: "(address \<times> int) list"
  proposals :: "(string \<times> proposal) list"

definition init_ledger :: ledger where
  "init_ledger = \<lparr>voter_weight = [], delegate_of = [], nonce_of = [], proposals = []\<rparr>"

section \<open>Voters and weights\<close>

text \<open>
  Every method takes the ledger and returns its result (\<open>Inl\<close> the exception raised)
  together with the ledger as the call leaves it, so that what a failing call has
  already written would be visible.
\<close>

definition add_voter :: "ledger \<Rightarrow> string \<Rightarrow> int \<Rightarrow> (error + unit) \<times> ledger" where
  "add_voter s address weight =
     (let addr = to_checksum_address address in
      if weight < 0 then (Inl InvalidWeight, s)
      else
        let s1 = s\<lparr>voter_weight := AList.update addr weight (voter_weight s)\<rparr> in
        if map_of (nonce_of s1) addr = None
        then (Inr (), s1\<lparr>nonce_of := AList.update addr 0 (nonce_of s1)\<rparr>)
        else (Inr (), s1))"

definition get_direct_weight :: "ledger \<Rightarrow> string \<Rightarrow> int" where
  "get_direct_weight s address = dict_get (voter_weight s) (to_checksum_address address) 0"

section \<open>Delegation\<close>

definition get_nonce :: "ledger \<Rightarrow> string \<Rightarrow> int" where
  "get_nonce s delegator = dict_get (nonce_of s) (to_checksum_address delegator) 0"

definition build_delegation_message ::
  "ledger \<Rightarrow> string \<Rightarrow> string \<Rightarrow> int \<Rightarrow> DelegationMessage" where
  "build_delegation_message s delegator delegatee deadline =
     (let delegator_cs = to_checksum_address delegator;
          delegatee_cs = to_checksum_address delegatee;
          nonce = get_nonce s delegator_cs
      in \<lparr>msg_delegator = delegator_cs, msg_delegatee = delegatee_cs,
          msg_nonce = nonce, msg_deadline = deadline\<rparr>)"

text \<open>
  The loop of \<^verbatim>\<open>_would_create_cycle\<close>: \<open>current\<close> and \<open>seen\<close> are the loop's variables.
  Each round that goes on puts a key of the dictionary into \<open>seen\<close> that was not there,
  which is the measure.
\<close>

function cycle_walk ::
  "(address \<times> address) list \<Rightarrow> address \<Rightarrow> address set \<Rightarrow> address \<Rightarrow> bool" where
  "cycle_walk edges start_cs seen current =
     (case map_of edges current of
        None \<Rightarrow> False
      | Some nxt \<Rightarrow>
          if current \<in> seen then True
          else if nxt = start_cs then True
          else cycle_walk edges start_cs (insert current seen) nxt)"
  by pat_completeness auto
termination
proof (relation "measure (\<lambda>(edges, start_cs, seen, current). card (fst ` set edges - seen))")
  show "wf (measure (\<lambda>(edges, start_cs, seen, current). card (fst ` set edges - seen)))"
    by simp
next
  fix edges :: "(address \<times> address) list" and start_cs seen current nxt
  assume look: "map_of edges current = Some nxt" and fresh: "current \<notin> seen"
  from look have "current \<in> fst ` set edges"
    by (metis domI dom_map_of_conv_image_fst)
  with fresh have "fst ` set edges - insert current seen \<subset> fst ` set edges - seen"
    by blast
  then have "card (fst ` set edges - insert current seen) < card (fst ` set edges - seen)"
    by (simp add: psubset_card_mono)
  then show "((edges, start_cs, insert current seen, nxt), (edges, start_cs, seen, current))
      \<in> measure (\<lambda>(edges, start_cs, seen, current). card (fst ` set edges - seen))"
    by simp
qed

declare cycle_walk.simps [simp del]

definition would_create_cycle :: "ledger \<Rightarrow> string \<Rightarrow> string \<Rightarrow> bool" where
  "would_create_cycle s start next_hop =
     (let current = to_checksum_address next_hop;
          start_cs = to_checksum_address start
      in cycle_walk (delegate_of s) start_cs {} current)"

definition set_delegate :: "ledger \<Rightarrow> string \<Rightarrow> string \<Rightarrow> (error + unit) \<times> ledger" where
  "set_delegate s delegator delegatee =
     (let delegator_cs = to_checksum_address delegator;
          delegatee_cs = to_checksum_address delegatee
      in if delegator_cs = delegatee_cs
         then (Inr (), s\<lparr>delegate_of := AList.delete delegator_cs (delegate_of s)\<rparr>)
         else if would_create_cycle s delegator_cs delegatee_cs
         then (Inl CycleDetected, s)
         else (Inr (), s\<lparr>delegate_of := AList.update delegator_cs delegatee_cs (delegate_of s)\<rparr>))"

text \<open>The loop of \<^verbatim>\<open>_resolve_final_delegate\<close>, with the same measure.\<close>

function resolve_walk :: "(address \<times> address) list \<Rightarrow> address set \<Rightarrow> address \<Rightarrow> address" where
  "resolve_walk edges seen current =
     (case map_of edges current of
        None \<Rightarrow> current
      | Some nxt \<Rightarrow>
          if current \<in> seen then current
          else resolve_walk edges (insert current seen) nxt)"
  by pat_completeness auto
termination
proof (relation "measure (\<lambda>(edges, seen, current). card (fst ` set edges - seen))")
  show "wf (measure (\<lambda>(edges, seen, current). card (fst ` set edges - seen)))"
    by simp
next
  fix edges :: "(address \<times> address) list" and seen current nxt
  assume look: "map_of edges current = Some nxt" and fresh: "current \<notin> seen"
  from look have "current \<in> fst ` set edges"
    by (metis domI dom_map_of_conv_image_fst)
  with fresh have "fst ` set edges - insert current seen \<subset> fst ` set edges - seen"
    by blast
  then have "card (fst ` set edges - insert current seen) < card (fst ` set edges - seen)"
    by (simp add: psubset_card_mono)
  then show "((edges, insert current seen, nxt), (edges, seen, current))
      \<in> measure (\<lambda>(edges, seen, current). card (fst ` set edges - seen))"
    by simp
qed

declare resolve_walk.simps [simp del]

definition resolve_final_delegate :: "ledger \<Rightarrow> string \<Rightarrow> address" where
  "resolve_final_delegate s addr =
     (let addr_cs = to_checksum_address addr in resolve_walk (delegate_of s) {} addr_cs)"

definition apply_delegation_signature ::
  "verifier \<Rightarrow> int \<Rightarrow> ledger \<Rightarrow> string \<Rightarrow> string \<Rightarrow> string \<Rightarrow> int \<Rightarrow> int
    \<Rightarrow> (error + unit) \<times> ledger" where
  "apply_delegation_signature recover_delegator now s signature delegator delegatee nonce deadline =
     (if now > deadline then (Inl Expired, s)
      else
        let msg = \<lparr>msg_delegator = to_checksum_address delegator,
                   msg_delegatee = to_checksum_address delegatee,
                   msg_nonce = nonce, msg_deadline = deadline\<rparr>;
            expected_nonce = get_nonce s (msg_delegator msg)
        in if msg_nonce msg \<noteq> expected_nonce then (Inl NonceMismatch, s)
           else
             case recover_delegator msg signature of
               None \<Rightarrow> (Inl SignatureInvalid, s)
             | Some recovered \<Rightarrow>
                 if recovered \<noteq> msg_delegator msg then (Inl NotDelegator, s)
                 else
                   case set_delegate s (msg_delegator msg) (msg_delegatee msg) of
                     (Inl e, s1) \<Rightarrow> (Inl e, s1)
                   | (Inr u, s1) \<Rightarrow>
                       (Inr (), s1\<lparr>nonce_of :=
                          AList.update (msg_delegator msg) (expected_nonce + 1) (nonce_of s1)\<rparr>))"

section \<open>Voting power\<close>

definition get_effective_voting_power_map :: "ledger \<Rightarrow> (address \<times> int) list" where
  "get_effective_voting_power_map s =
     foldl (\<lambda>power (voter, weight).
              if weight = 0 then power
              else
                let final_holder = resolve_final_delegate s voter
                in AList.update final_holder (dict_get power final_holder 0 + weight) power)
           [] (voter_weight s)"

definition get_effective_voting_power :: "ledger \<Rightarrow> string \<Rightarrow> int" where
  "get_effective_voting_power s address =
     (let final_holder = resolve_final_delegate s address
      in dict_get (get_effective_voting_power_map s) final_holder 0)"

section \<open>Proposals and voting\<close>

definition create_proposal ::
  "int \<Rightarrow> ledger \<Rightarrow> string \<Rightarrow> string \<Rightarrow> string \<Rightarrow> int \<Rightarrow> (error + unit) \<times> ledger" where
  "create_proposal now s proposal_id title description closes_at =
     (if map_of (proposals s) proposal_id \<noteq> None then (Inl DuplicateProposal, s)
      else if closes_at \<le> now then (Inl InvalidClosingTime, s)
      else (Inr (), s\<lparr>proposals := AList.update proposal_id
              \<lparr>p_title = title, p_description = description, p_closes_at = closes_at,
               tallies = [(''yes'', 0), (''no'', 0), (''abstain'', 0)], voted = {}\<rparr>
              (proposals s)\<rparr>))"

definition vote ::
  "int \<Rightarrow> ledger \<Rightarrow> string \<Rightarrow> string \<Rightarrow> string
    \<Rightarrow> (error + int \<times> (string \<times> int) list) \<times> ledger" where
  "vote now s proposal_id voter choice =
     (case map_of (proposals s) proposal_id of
        None \<Rightarrow> (Inl UnknownProposal, s)
      | Some prop \<Rightarrow>
          if choice \<notin> set [''yes'', ''no'', ''abstain''] then (Inl InvalidChoice, s)
          else if now > p_closes_at prop then (Inl VotingClosed, s)
          else
            let voter_cs = to_checksum_address voter;
                final_holder = resolve_final_delegate s voter_cs
            in if voter_cs \<noteq> final_holder then (Inl DelegatedVoterCannotVote, s)
               else if final_holder \<in> voted prop then (Inl AlreadyVoted, s)
               else
                 let power_map = get_effective_voting_power_map s;
                     weight = dict_get power_map final_holder 0
                 in if weight \<le> 0 then (Inl NoVotingPower, s)
                    else
                      case map_of (tallies prop) choice of
                        None \<Rightarrow> (Inl KeyError, s)
                      | Some t \<Rightarrow>
                          let prop1 = prop\<lparr>tallies := AList.update choice (t + weight) (tallies prop)\<rparr>;
                              prop2 = prop1\<lparr>voted := insert final_holder (voted prop1)\<rparr>
                          in (Inr (weight, tallies prop2),
                              s\<lparr>proposals := AList.update proposal_id prop2 (proposals s)\<rparr>))"

definition get_results :: "ledger \<Rightarrow> string \<Rightarrow> error + (string \<times> int) list" where
  "get_results s proposal_id =
     (case map_of (proposals s) proposal_id of
        None \<Rightarrow> Inl UnknownProposal
      | Some prop \<Rightarrow> Inr (tallies prop))"

definition is_open :: "int \<Rightarrow> ledger \<Rightarrow> string \<Rightarrow> error + bool" where
  "is_open now s proposal_id =
     (case map_of (proposals s) proposal_id of
        None \<Rightarrow> Inl UnknownProposal
      | Some prop \<Rightarrow> Inr (now \<le> p_closes_at prop))"

section \<open>Vocabulary of the verification\<close>

text \<open>
  The delegation dictionary read as a directed graph: an edge from each key to its
  value.
\<close>

definition edge_rel :: "(address \<times> address) list \<Rightarrow> (address \<times> address) set" where
  "edge_rel edges = {(a, b). map_of edges a = Some b}"

text \<open>
  The addresses the loop of \<^verbatim>\<open>_resolve_final_delegate\<close> stands on, in order: the same
  recursion as \<open>resolve_walk\<close>, keeping every value of \<open>current\<close>. Its length minus one
  is the number of edges the loop follows.
\<close>

function resolve_path :: "(address \<times> address) list \<Rightarrow> address set \<Rightarrow> address \<Rightarrow> address list" where
  "resolve_path edges seen current =
     (case map_of edges current of
        None \<Rightarrow> [current]
      | Some nxt \<Rightarrow>
          if current \<in> seen then [current]
          else current # resolve_path edges (insert current seen) nxt)"
  by pat_completeness auto
termination
proof (relation "measure (\<lambda>(edges, seen, current). card (fst ` set edges - seen))")
  show "wf (measure (\<lambda>(edges, seen, current). card (fst ` set edges - seen)))"
    by simp
next
  fix edges :: "(address \<times> address) list" and seen current nxt
  assume look: "map_of edges current = Some nxt" and fresh: "current \<notin> seen"
  from look have "current \<in> fst ` set edges"
    by (metis domI dom_map_of_conv_image_fst)
  with fresh have "fst ` set edges - insert current seen \<subset> fst ` set edges - seen"
    by blast
  then have "card (fst ` set edges - insert current seen) < card (fst ` set edges - seen)"
    by (simp add: psubset_card_mono)
  then show "((edges, insert current seen, nxt), (edges, seen, current))
      \<in> measure (\<lambda>(edges, seen, current). card (fst ` set edges - seen))"
    by simp
qed

declare resolve_path.simps [simp del]

text \<open>The sum of the values of a dictionary of integers.\<close>

definition sum_values :: "('k \<times> int) list \<Rightarrow> int" where
  "sum_values d = sum_list (map snd d)"

text \<open>
  The ledgers a run can reach: the constructor's ledger, and what any call of the four
  methods that write leaves behind, at any time and with any arguments, whether the call
  returns or raises. The verifier is fixed when the ledger is constructed.
\<close>

inductive reachable :: "verifier \<Rightarrow> ledger \<Rightarrow> bool" for recover_delegator :: verifier where
  reachable_init: "reachable recover_delegator init_ledger"
| reachable_add_voter:
    "reachable recover_delegator s \<Longrightarrow> reachable recover_delegator (snd (add_voter s address weight))"
| reachable_apply:
    "reachable recover_delegator s \<Longrightarrow>
     reachable recover_delegator
       (snd (apply_delegation_signature recover_delegator now s signature delegator delegatee nonce deadline))"
| reachable_create_proposal:
    "reachable recover_delegator s \<Longrightarrow>
     reachable recover_delegator (snd (create_proposal now s proposal_id title description closes_at))"
| reachable_vote:
    "reachable recover_delegator s \<Longrightarrow>
     reachable recover_delegator (snd (vote now s proposal_id voter choice))"

text \<open>
  The ledgers a run can reach from a given ledger by further calls of the same four
  methods, and what it means that an address is in the voted set of a stored proposal.
\<close>

inductive reaches :: "verifier \<Rightarrow> ledger \<Rightarrow> ledger \<Rightarrow> bool"
  for recover_delegator :: verifier and s0 :: ledger where
  reaches_refl: "reaches recover_delegator s0 s0"
| reaches_add_voter:
    "reaches recover_delegator s0 s \<Longrightarrow>
     reaches recover_delegator s0 (snd (add_voter s address weight))"
| reaches_apply:
    "reaches recover_delegator s0 s \<Longrightarrow>
     reaches recover_delegator s0
       (snd (apply_delegation_signature recover_delegator now s signature delegator delegatee nonce deadline))"
| reaches_create_proposal:
    "reaches recover_delegator s0 s \<Longrightarrow>
     reaches recover_delegator s0 (snd (create_proposal now s proposal_id title description closes_at))"
| reaches_vote:
    "reaches recover_delegator s0 s \<Longrightarrow>
     reaches recover_delegator s0 (snd (vote now s proposal_id voter choice))"

definition holder_voted :: "ledger \<Rightarrow> string \<Rightarrow> address \<Rightarrow> bool" where
  "holder_voted s proposal_id holder =
     (case map_of (proposals s) proposal_id of
        None \<Rightarrow> False
      | Some prop \<Rightarrow> holder \<in> voted prop)"

text \<open>
  Two facts kept by every method: \<^verbatim>\<open>add_voter\<close> stores no negative weight, and every
  stored proposal has a tally for each of the three choices.
\<close>

definition nonneg_weights :: "ledger \<Rightarrow> bool" where
  "nonneg_weights s = (\<forall>w \<in> snd ` set (voter_weight s). 0 \<le> w)"

definition tallies_complete :: "ledger \<Rightarrow> bool" where
  "tallies_complete s =
     (\<forall>pid prop. map_of (proposals s) pid = Some prop \<longrightarrow>
        (\<forall>c \<in> set [''yes'', ''no'', ''abstain'']. map_of (tallies prop) c \<noteq> None))"

text \<open>
  Concrete inputs. An address written with digits only is its own checksum form. The
  verifier \<open>signer_named\<close> reads a signature as the address of its signer and rejects
  the empty signature. \<open>delegated_ledger\<close> is the specification's scenario: A with
  weight 100, B with weight 50, and A's delegation to B accepted; \<open>voting_ledger\<close> adds
  an open proposal to it; \<open>cyclic_ledger\<close> holds a cycle that no run can produce.
\<close>

definition addrA :: address where
  "addrA = ''0x0000000000000000000000000000000000000001''"

definition addrB :: address where
  "addrB = ''0x0000000000000000000000000000000000000002''"

definition addrC :: address where
  "addrC = ''0x0000000000000000000000000000000000000003''"

definition signer_named :: verifier where
  "signer_named msg signature = (if signature = [] then None else Some signature)"

definition delegated_ledger :: ledger where
  "delegated_ledger =
     snd (apply_delegation_signature signer_named 1000
            (snd (add_voter (snd (add_voter init_ledger addrA 100)) addrB 50))
            addrA addrA addrB 0 2000)"

definition voting_ledger :: ledger where
  "voting_ledger = snd (create_proposal 1000 delegated_ledger ''P1'' ''Title'' ''Text'' 5000)"

definition cyclic_ledger :: ledger where
  "cyclic_ledger =
     \<lparr>voter_weight = [], delegate_of = [(addrA, addrB), (addrB, addrA)],
      nonce_of = [], proposals = []\<rparr>"

section \<open>Helper lemmas\<close>

subsection \<open>The edge relation under update and delete\<close>

lemma edge_rel_Nil: "edge_rel [] = {}"
  by (simp add: edge_rel_def)

lemma edge_rel_update_subset:
  "edge_rel (AList.update d e edges) \<subseteq> insert (d, e) (edge_rel edges)"
  by (auto simp: edge_rel_def update_conv' split: if_splits)

lemma edge_rel_update:
  "edge_rel (AList.update d e edges) = insert (d, e) {(a, b). (a, b) \<in> edge_rel edges \<and> a \<noteq> d}"
  by (auto simp: edge_rel_def update_conv' split: if_splits)

lemma edge_rel_delete:
  "edge_rel (AList.delete d edges) = {(a, b). (a, b) \<in> edge_rel edges \<and> a \<noteq> d}"
  by (auto simp: edge_rel_def delete_conv' split: if_splits)

lemma acyclic_delete:
  assumes "acyclic (edge_rel edges)"
  shows "acyclic (edge_rel (AList.delete d edges))"
  using assms by (rule acyclic_subset) (auto simp: edge_rel_delete)

subsection \<open>The walk of the cycle check\<close>

text \<open>
  The walk answers True whenever the start can be reached from where it stands; on an
  acyclic graph, where the addresses seen so far all lead to the current one, it
  answers True only then.
\<close>

lemma cycle_walk_complete:
  assumes "(c, d) \<in> (edge_rel edges)\<^sup>*" and "c \<noteq> d"
  shows "cycle_walk edges d seen c"
  using assms
proof (induction arbitrary: seen rule: converse_rtrancl_induct)
  case base
  then show ?case by simp
next
  case (step y z)
  from step.hyps(1) have look: "map_of edges y = Some z"
    by (simp add: edge_rel_def)
  show ?case
  proof (cases "y \<in> seen \<or> z = d")
    case True
    with look show ?thesis by (auto simp: cycle_walk.simps [of edges d seen y])
  next
    case False
    with step.IH [of "insert y seen"] look show ?thesis
      by (simp add: cycle_walk.simps [of edges d seen y])
  qed
qed

lemma cycle_walk_sound:
  assumes "acyclic (edge_rel edges)" and "\<forall>x\<in>seen. (x, c) \<in> (edge_rel edges)\<^sup>+"
    and "cycle_walk edges d seen c"
  shows "(c, d) \<in> (edge_rel edges)\<^sup>+"
  using assms
proof (induction edges d seen c rule: cycle_walk.induct)
  case (1 edges start_cs seen current)
  show ?case
  proof (cases "map_of edges current")
    case None
    with "1.prems"(3) show ?thesis
      by (simp add: cycle_walk.simps [of edges start_cs seen current])
  next
    case (Some nxt)
    then have edge: "(current, nxt) \<in> edge_rel edges" by (simp add: edge_rel_def)
    have fresh: "current \<notin> seen"
    proof
      assume "current \<in> seen"
      with "1.prems"(2) have "(current, current) \<in> (edge_rel edges)\<^sup>+" by blast
      with "1.prems"(1) show False by (simp add: acyclic_def)
    qed
    show ?thesis
    proof (cases "nxt = start_cs")
      case True
      with edge show ?thesis by blast
    next
      case False
      have inv: "\<forall>x\<in>insert current seen. (x, nxt) \<in> (edge_rel edges)\<^sup>+"
        using edge "1.prems"(2) by (auto intro: trancl_into_trancl)
      have "cycle_walk edges start_cs (insert current seen) nxt"
        using "1.prems"(3) Some fresh False
        by (simp add: cycle_walk.simps [of edges start_cs seen current])
      from "1.IH" [OF Some fresh False "1.prems"(1) inv this] edge show ?thesis
        by (rule trancl_into_trancl2 [rotated])
    qed
  qed
qed

lemma would_create_cycle_iff:
  assumes "acyclic (edge_rel (delegate_of s))" and "d \<noteq> e"
  shows "would_create_cycle s d e \<longleftrightarrow> (e, d) \<in> (edge_rel (delegate_of s))\<^sup>+"
proof
  assume "would_create_cycle s d e"
  then have "cycle_walk (delegate_of s) d {} e"
    by (simp add: would_create_cycle_def to_checksum_address_def)
  with assms(1) show "(e, d) \<in> (edge_rel (delegate_of s))\<^sup>+"
    by (intro cycle_walk_sound [where seen = "{}"]) simp_all
next
  assume "(e, d) \<in> (edge_rel (delegate_of s))\<^sup>+"
  then have "(e, d) \<in> (edge_rel (delegate_of s))\<^sup>*" by (rule trancl_into_rtrancl)
  with assms(2) have "cycle_walk (delegate_of s) d {} e"
    by (intro cycle_walk_complete) auto
  then show "would_create_cycle s d e"
    by (simp add: would_create_cycle_def to_checksum_address_def)
qed

lemma acyclic_update:
  assumes "acyclic (edge_rel edges)" and "d \<noteq> e" and "\<not> cycle_walk edges d {} e"
  shows "acyclic (edge_rel (AList.update d e edges))"
proof -
  from assms(2,3) have "(e, d) \<notin> (edge_rel edges)\<^sup>*"
    using cycle_walk_complete [of e d edges "{}"] by auto
  with assms(1) have "acyclic (insert (d, e) (edge_rel edges))"
    by (simp add: acyclic_insert)
  then show ?thesis
    by (rule acyclic_subset) (rule edge_rel_update_subset)
qed

lemma would_create_cycle_Nil: "\<not> cycle_walk [] d seen c"
  by (simp add: cycle_walk.simps)

subsection \<open>The walk of the resolution\<close>

lemma resolve_walk_acyclic:
  assumes "acyclic (edge_rel edges)" and "\<forall>x\<in>seen. (x, c) \<in> (edge_rel edges)\<^sup>+"
  shows "map_of edges (resolve_walk edges seen c) = None
         \<and> (c, resolve_walk edges seen c) \<in> (edge_rel edges)\<^sup>*"
  using assms
proof (induction edges seen c rule: resolve_walk.induct)
  case (1 edges seen current)
  show ?case
  proof (cases "map_of edges current")
    case None
    then show ?thesis by (simp add: resolve_walk.simps [of edges seen current])
  next
    case (Some nxt)
    then have edge: "(current, nxt) \<in> edge_rel edges" by (simp add: edge_rel_def)
    have fresh: "current \<notin> seen"
    proof
      assume "current \<in> seen"
      with "1.prems"(2) have "(current, current) \<in> (edge_rel edges)\<^sup>+" by blast
      with "1.prems"(1) show False by (simp add: acyclic_def)
    qed
    have "\<forall>x\<in>insert current seen. (x, nxt) \<in> (edge_rel edges)\<^sup>+"
      using edge "1.prems"(2) by (auto intro: trancl_into_trancl)
    with "1.IH" [OF Some fresh] "1.prems"(1)
    have "map_of edges (resolve_walk edges (insert current seen) nxt) = None
          \<and> (nxt, resolve_walk edges (insert current seen) nxt) \<in> (edge_rel edges)\<^sup>*"
      by blast
    with Some fresh edge show ?thesis
      by (auto simp: resolve_walk.simps [of edges seen current] intro: converse_rtrancl_into_rtrancl)
  qed
qed

lemma resolve_path_nonempty: "resolve_path edges seen c \<noteq> []"
  by (subst resolve_path.simps) (simp split: option.split)

lemma hd_resolve_path: "hd (resolve_path edges seen c) = c"
  by (subst resolve_path.simps) (simp split: option.split)

lemma last_resolve_path: "last (resolve_path edges seen c) = resolve_walk edges seen c"
proof (induction edges seen c rule: resolve_walk.induct)
  case (1 edges seen current)
  show ?case
  proof (cases "map_of edges current")
    case None
    then show ?thesis
      by (simp add: resolve_walk.simps [of edges seen current]
          resolve_path.simps [of edges seen current])
  next
    case (Some nxt)
    with "1.IH" show ?thesis
      by (simp add: resolve_walk.simps [of edges seen current]
          resolve_path.simps [of edges seen current] resolve_path_nonempty)
  qed
qed

lemma resolve_path_edges:
  "Suc i < length (resolve_path edges seen c) \<Longrightarrow>
     map_of edges (resolve_path edges seen c ! i) = Some (resolve_path edges seen c ! Suc i)"
proof (induction edges seen c arbitrary: i rule: resolve_path.induct)
  case (1 edges seen current)
  show ?case
  proof (cases "map_of edges current")
    case None
    with "1.prems" show ?thesis
      by (simp add: resolve_path.simps [of edges seen current])
  next
    case (Some nxt)
    show ?thesis
    proof (cases "current \<in> seen")
      case True
      with Some "1.prems" show ?thesis
        by (simp add: resolve_path.simps [of edges seen current])
    next
      case False
      let ?rest = "resolve_path edges (insert current seen) nxt"
      have unfold: "resolve_path edges seen current = current # ?rest"
        using Some False by (simp add: resolve_path.simps [of edges seen current])
      show ?thesis
      proof (cases i)
        case 0
        have "?rest ! 0 = nxt"
          using hd_resolve_path [of edges "insert current seen" nxt]
            resolve_path_nonempty [of edges "insert current seen" nxt]
          by (simp add: hd_conv_nth)
        with 0 Some unfold show ?thesis by simp
      next
        case (Suc j)
        with "1.prems" unfold have "Suc j < length ?rest" by simp
        from "1.IH" [OF Some False this] Suc unfold show ?thesis by simp
      qed
    qed
  qed
qed

lemma length_resolve_path:
  "length (resolve_path edges seen c) \<le> Suc (card (fst ` set edges - seen))"
proof (induction edges seen c rule: resolve_path.induct)
  case (1 edges seen current)
  show ?case
  proof (cases "map_of edges current")
    case None
    then show ?thesis by (simp add: resolve_path.simps [of edges seen current])
  next
    case (Some nxt)
    show ?thesis
    proof (cases "current \<in> seen")
      case True
      with Some show ?thesis by (simp add: resolve_path.simps [of edges seen current])
    next
      case False
      from Some have "current \<in> fst ` set edges"
        by (metis domI dom_map_of_conv_image_fst)
      with False have "fst ` set edges - insert current seen \<subset> fst ` set edges - seen"
        by blast
      then have "card (fst ` set edges - insert current seen) < card (fst ` set edges - seen)"
        by (simp add: psubset_card_mono)
      with "1.IH" [OF Some False] Some False show ?thesis
        by (simp add: resolve_path.simps [of edges seen current])
    qed
  qed
qed

subsection \<open>The power map as a fold\<close>

lemma sum_values_update:
  "sum_values (AList.update k (dict_get d k 0 + w) d) = sum_values d + w"
  by (induction d) (auto simp: sum_values_def dict_get_def)

lemma sum_values_foldl:
  "sum_values (foldl (\<lambda>power (voter, weight).
              if weight = 0 then power
              else
                let final_holder = f voter
                in AList.update final_holder (dict_get power final_holder 0 + weight) power)
           acc vw) = sum_values acc + sum_list (filter (\<lambda>w. w \<noteq> 0) (map snd vw))"
proof (induction vw arbitrary: acc)
  case Nil
  then show ?case by simp
next
  case (Cons p vw)
  obtain voter weight where p: "p = (voter, weight)" by (cases p)
  show ?case
    by (simp add: p Cons.IH sum_values_update Let_def)
qed

lemma distinct_power_fold:
  "distinct (map fst acc) \<Longrightarrow>
   distinct (map fst (foldl (\<lambda>power (voter, weight).
              if weight = 0 then power
              else
                let final_holder = f voter
                in AList.update final_holder (dict_get power final_holder 0 + weight) power)
           acc vw))"
proof (induction vw arbitrary: acc)
  case Nil
  then show ?case by simp
next
  case (Cons p vw)
  obtain voter weight where p: "p = (voter, weight)" by (cases p)
  show ?case
    using Cons.prems by (auto simp: p Let_def distinct_update intro!: Cons.IH)
qed

subsection \<open>What each method writes\<close>

lemma set_delegate_cases:
  "set_delegate s d e = (Inr (), s\<lparr>delegate_of := AList.delete d (delegate_of s)\<rparr>) \<and> d = e
   \<or> set_delegate s d e = (Inl CycleDetected, s) \<and> d \<noteq> e \<and> would_create_cycle s d e
   \<or> set_delegate s d e = (Inr (), s\<lparr>delegate_of := AList.update d e (delegate_of s)\<rparr>)
       \<and> d \<noteq> e \<and> \<not> would_create_cycle s d e"
  by (simp add: set_delegate_def to_checksum_address_def)

lemma set_delegate_frame:
  "voter_weight (snd (set_delegate s d e)) = voter_weight s
   \<and> nonce_of (snd (set_delegate s d e)) = nonce_of s
   \<and> proposals (snd (set_delegate s d e)) = proposals s"
  by (simp add: set_delegate_def to_checksum_address_def)

lemma set_delegate_acyclic:
  assumes "acyclic (edge_rel (delegate_of s))"
  shows "acyclic (edge_rel (delegate_of (snd (set_delegate s d e))))"
  using set_delegate_cases [of s d e] assms
  by (auto simp: would_create_cycle_def to_checksum_address_def
      intro: acyclic_delete acyclic_update)

lemma apply_delegation_signature_unfold:
  "apply_delegation_signature r now s sg d e n dl =
     (if now > dl then (Inl Expired, s)
      else if n \<noteq> get_nonce s d then (Inl NonceMismatch, s)
      else
        case r \<lparr>msg_delegator = d, msg_delegatee = e, msg_nonce = n, msg_deadline = dl\<rparr> sg of
          None \<Rightarrow> (Inl SignatureInvalid, s)
        | Some signer \<Rightarrow>
            if signer \<noteq> d then (Inl NotDelegator, s)
            else if d = e
            then (Inr (), s\<lparr>delegate_of := AList.delete d (delegate_of s),
                            nonce_of := AList.update d (n + 1) (nonce_of s)\<rparr>)
            else if would_create_cycle s d e then (Inl CycleDetected, s)
            else (Inr (), s\<lparr>delegate_of := AList.update d e (delegate_of s),
                            nonce_of := AList.update d (n + 1) (nonce_of s)\<rparr>))"
  by (simp add: apply_delegation_signature_def set_delegate_def to_checksum_address_def Let_def
      split: option.split)

lemma apply_delegation_signature_cases:
  "snd (apply_delegation_signature r now s sg d e n dl) = s
   \<or> snd (apply_delegation_signature r now s sg d e n dl)
        = s\<lparr>delegate_of := AList.delete d (delegate_of s),
            nonce_of := AList.update d (n + 1) (nonce_of s)\<rparr>
   \<or> d \<noteq> e \<and> \<not> would_create_cycle s d e
      \<and> snd (apply_delegation_signature r now s sg d e n dl)
        = s\<lparr>delegate_of := AList.update d e (delegate_of s),
            nonce_of := AList.update d (n + 1) (nonce_of s)\<rparr>"
proof -
  define v where "v = r \<lparr>msg_delegator = d, msg_delegatee = e, msg_nonce = n, msg_deadline = dl\<rparr> sg"
  show ?thesis
    unfolding apply_delegation_signature_unfold v_def [symmetric]
    by (cases v) simp_all
qed

lemma apply_delegation_signature_frame:
  "voter_weight (snd (apply_delegation_signature r now s sg d e n dl)) = voter_weight s
   \<and> proposals (snd (apply_delegation_signature r now s sg d e n dl)) = proposals s"
  using apply_delegation_signature_cases [of r now s sg d e n dl]
  by (elim disjE conjE) simp_all

lemma apply_delegation_signature_acyclic:
  assumes "acyclic (edge_rel (delegate_of s))"
  shows "acyclic (edge_rel (delegate_of (snd (apply_delegation_signature r now s sg d e n dl))))"
  using apply_delegation_signature_cases [of r now s sg d e n dl]
proof (elim disjE conjE)
  assume "snd (apply_delegation_signature r now s sg d e n dl) = s"
  with assms show ?thesis by simp
next
  assume "snd (apply_delegation_signature r now s sg d e n dl)
        = s\<lparr>delegate_of := AList.delete d (delegate_of s),
            nonce_of := AList.update d (n + 1) (nonce_of s)\<rparr>"
  with acyclic_delete [OF assms, of d] show ?thesis by simp
next
  assume "d \<noteq> e" and "\<not> would_create_cycle s d e"
    and post: "snd (apply_delegation_signature r now s sg d e n dl)
        = s\<lparr>delegate_of := AList.update d e (delegate_of s),
            nonce_of := AList.update d (n + 1) (nonce_of s)\<rparr>"
  then have "acyclic (edge_rel (AList.update d e (delegate_of s)))"
    using assms by (simp add: acyclic_update would_create_cycle_def to_checksum_address_def)
  with post show ?thesis by simp
qed

lemma add_voter_frame:
  "delegate_of (snd (add_voter s a w)) = delegate_of s
   \<and> proposals (snd (add_voter s a w)) = proposals s"
  by (simp add: add_voter_def Let_def)

lemma create_proposal_frame:
  "delegate_of (snd (create_proposal now s pid t ds c)) = delegate_of s
   \<and> voter_weight (snd (create_proposal now s pid t ds c)) = voter_weight s
   \<and> nonce_of (snd (create_proposal now s pid t ds c)) = nonce_of s"
  by (simp add: create_proposal_def)

lemma vote_frame:
  "delegate_of (snd (vote now s pid v c)) = delegate_of s
   \<and> voter_weight (snd (vote now s pid v c)) = voter_weight s
   \<and> nonce_of (snd (vote now s pid v c)) = nonce_of s"
  by (simp add: vote_def Let_def split: option.splits)

lemma vote_cases:
  "snd (vote now s pid v c) = s
   \<or> (\<exists>prop t w. map_of (proposals s) pid = Some prop \<and> map_of (tallies prop) c = Some t
        \<and> snd (vote now s pid v c) =
            s\<lparr>proposals := AList.update pid
                 (prop\<lparr>tallies := AList.update c (t + w) (tallies prop),
                       voted := insert v (voted prop)\<rparr>) (proposals s)\<rparr>)"
  by (auto simp: vote_def Let_def to_checksum_address_def split: option.splits)

lemma vote_unfold:
  assumes "map_of (proposals s) pid = Some pr"
    and "choice \<in> set [''yes'', ''no'', ''abstain'']"
    and "now \<le> p_closes_at pr"
    and "map_of (tallies pr) choice = Some t"
  shows "vote now s pid voter choice =
     (if voter \<noteq> resolve_final_delegate s voter then (Inl DelegatedVoterCannotVote, s)
      else if voter \<in> voted pr then (Inl AlreadyVoted, s)
      else if dict_get (get_effective_voting_power_map s) voter 0 \<le> 0 then (Inl NoVotingPower, s)
      else (Inr (dict_get (get_effective_voting_power_map s) voter 0,
                 AList.update choice (t + dict_get (get_effective_voting_power_map s) voter 0)
                   (tallies pr)),
            s\<lparr>proposals := AList.update pid
                 (pr\<lparr>tallies := AList.update choice
                         (t + dict_get (get_effective_voting_power_map s) voter 0) (tallies pr),
                     voted := insert voter (voted pr)\<rparr>) (proposals s)\<rparr>))"
proof -
  from assms(3) have open_now: "\<not> now > p_closes_at pr" by simp
  show ?thesis
    unfolding vote_def to_checksum_address_def Let_def
    using assms(1,2,4) open_now by auto
qed

subsection \<open>Invariants of reachable ledgers\<close>

lemma reachable_acyclic:
  "reachable r s \<Longrightarrow> acyclic (edge_rel (delegate_of s))"
proof (induction rule: reachable.induct)
  case reachable_init
  show ?case by (simp add: init_ledger_def edge_rel_Nil acyclic_def)
next
  case (reachable_add_voter s address weight)
  then show ?case by (simp add: add_voter_frame)
next
  case (reachable_apply s now signature delegator delegatee nonce deadline)
  then show ?case by (simp add: apply_delegation_signature_acyclic)
next
  case (reachable_create_proposal s now proposal_id title description closes_at)
  then show ?case by (simp add: create_proposal_frame)
next
  case (reachable_vote s now proposal_id voter choice)
  then show ?case by (simp add: vote_frame)
qed

lemma set_update_subset: "set (AList.update k v al) \<subseteq> insert (k, v) (set al)"
  by (induction al) auto

lemma add_voter_nonneg:
  assumes "nonneg_weights s"
  shows "nonneg_weights (snd (add_voter s a w))"
proof (cases "w < 0")
  case True
  with assms show ?thesis by (simp add: add_voter_def Let_def)
next
  case False
  have "voter_weight (snd (add_voter s a w)) = AList.update a w (voter_weight s)"
    using False by (simp add: add_voter_def Let_def to_checksum_address_def)
  with set_update_subset [of a w "voter_weight s"] assms False show ?thesis
    by (fastforce simp: nonneg_weights_def)
qed

lemma reachable_nonneg_weights:
  "reachable r s \<Longrightarrow> nonneg_weights s"
proof (induction rule: reachable.induct)
  case reachable_init
  show ?case by (simp add: init_ledger_def nonneg_weights_def)
next
  case (reachable_add_voter s address weight)
  then show ?case by (simp add: add_voter_nonneg)
next
  case (reachable_apply s now signature delegator delegatee nonce deadline)
  then show ?case by (simp add: nonneg_weights_def apply_delegation_signature_frame)
next
  case (reachable_create_proposal s now proposal_id title description closes_at)
  then show ?case by (simp add: nonneg_weights_def create_proposal_frame)
next
  case (reachable_vote s now proposal_id voter choice)
  then show ?case by (simp add: nonneg_weights_def vote_frame)
qed

lemma reachable_distinct_voters:
  "reachable r s \<Longrightarrow> distinct (map fst (voter_weight s))"
proof (induction rule: reachable.induct)
  case reachable_init
  show ?case by (simp add: init_ledger_def)
next
  case (reachable_add_voter s address weight)
  then show ?case by (simp add: add_voter_def Let_def distinct_update)
next
  case (reachable_apply s now signature delegator delegatee nonce deadline)
  then show ?case by (simp add: apply_delegation_signature_frame)
next
  case (reachable_create_proposal s now proposal_id title description closes_at)
  then show ?case by (simp add: create_proposal_frame)
next
  case (reachable_vote s now proposal_id voter choice)
  then show ?case by (simp add: vote_frame)
qed

lemma create_proposal_tallies:
  assumes "tallies_complete s"
  shows "tallies_complete (snd (create_proposal now s pid t ds c))"
  using assms
  by (auto simp: tallies_complete_def create_proposal_def update_conv' split: if_splits)

lemma vote_tallies:
  assumes "tallies_complete s"
  shows "tallies_complete (snd (vote now s pid v c))"
proof -
  from vote_cases [of now s pid v c] show ?thesis
  proof
    assume "snd (vote now s pid v c) = s"
    with assms show ?thesis by simp
  next
    assume "\<exists>pr t w. map_of (proposals s) pid = Some pr \<and> map_of (tallies pr) c = Some t
        \<and> snd (vote now s pid v c) =
            s\<lparr>proposals := AList.update pid
                 (pr\<lparr>tallies := AList.update c (t + w) (tallies pr),
                       voted := insert v (voted pr)\<rparr>) (proposals s)\<rparr>"
    then obtain pr t w where old: "map_of (proposals s) pid = Some pr"
      and post: "snd (vote now s pid v c) =
            s\<lparr>proposals := AList.update pid
                 (pr\<lparr>tallies := AList.update c (t + w) (tallies pr),
                       voted := insert v (voted pr)\<rparr>) (proposals s)\<rparr>"
      by blast
    from assms old have keys: "\<forall>k \<in> set [''yes'', ''no'', ''abstain'']. map_of (tallies pr) k \<noteq> None"
      unfolding tallies_complete_def by blast
    show ?thesis
      unfolding tallies_complete_def post
    proof (intro allI impI)
      fix pid' pr'
      assume look: "map_of (proposals (s\<lparr>proposals := AList.update pid
                 (pr\<lparr>tallies := AList.update c (t + w) (tallies pr),
                       voted := insert v (voted pr)\<rparr>) (proposals s)\<rparr>)) pid' = Some pr'"
      show "\<forall>k \<in> set [''yes'', ''no'', ''abstain'']. map_of (tallies pr') k \<noteq> None"
      proof (cases "pid' = pid")
        case True
        with look have "pr' = pr\<lparr>tallies := AList.update c (t + w) (tallies pr),
                       voted := insert v (voted pr)\<rparr>"
          by (simp add: update_conv')
        with keys show ?thesis by (simp add: update_conv')
      next
        case False
        with look have "map_of (proposals s) pid' = Some pr'"
          by (simp add: update_conv')
        with assms show ?thesis unfolding tallies_complete_def by blast
      qed
    qed
  qed
qed

lemma reachable_tallies_complete:
  "reachable r s \<Longrightarrow> tallies_complete s"
proof (induction rule: reachable.induct)
  case reachable_init
  show ?case by (simp add: init_ledger_def tallies_complete_def)
next
  case (reachable_add_voter s address weight)
  then show ?case by (simp add: tallies_complete_def add_voter_frame)
next
  case (reachable_apply s now signature delegator delegatee nonce deadline)
  then show ?case by (simp add: tallies_complete_def apply_delegation_signature_frame)
next
  case (reachable_create_proposal s now proposal_id title description closes_at)
  then show ?case by (simp add: create_proposal_tallies)
next
  case (reachable_vote s now proposal_id voter choice)
  then show ?case by (simp add: vote_tallies)
qed

subsection \<open>Votes that fail, and the voted set over a run\<close>

lemma vote_failure_unchanged:
  "fst (vote now s pid v c) = Inl err \<Longrightarrow> snd (vote now s pid v c) = s"
  by (auto simp: vote_def Let_def split: option.splits if_splits)

lemma vote_voted_fails:
  assumes "holder_voted s pid v"
  shows "\<exists>err. vote now s pid v c = (Inl err, s)"
proof -
  from assms obtain pr where look: "map_of (proposals s) pid = Some pr" and in_voted: "v \<in> voted pr"
    by (auto simp: holder_voted_def split: option.splits)
  show ?thesis
    unfolding vote_def to_checksum_address_def Let_def look
    using in_voted by auto
qed

lemma add_voter_holder_voted:
  "holder_voted s pid v \<Longrightarrow> holder_voted (snd (add_voter s a w)) pid v"
  by (simp add: holder_voted_def add_voter_frame)

lemma apply_delegation_signature_holder_voted:
  "holder_voted s pid v \<Longrightarrow>
   holder_voted (snd (apply_delegation_signature r now s sg d e n dl)) pid v"
  by (simp add: holder_voted_def apply_delegation_signature_frame)

lemma create_proposal_holder_voted:
  "holder_voted s pid v \<Longrightarrow> holder_voted (snd (create_proposal now s pid' t ds c)) pid v"
  by (auto simp: holder_voted_def create_proposal_def update_conv' split: option.splits)

lemma vote_holder_voted:
  assumes "holder_voted s pid v"
  shows "holder_voted (snd (vote now s pid' v' c)) pid v"
proof -
  from vote_cases [of now s pid' v' c] show ?thesis
  proof
    assume "snd (vote now s pid' v' c) = s"
    with assms show ?thesis by simp
  next
    assume "\<exists>pr t w. map_of (proposals s) pid' = Some pr \<and> map_of (tallies pr) c = Some t
        \<and> snd (vote now s pid' v' c) =
            s\<lparr>proposals := AList.update pid'
                 (pr\<lparr>tallies := AList.update c (t + w) (tallies pr),
                       voted := insert v' (voted pr)\<rparr>) (proposals s)\<rparr>"
    then obtain pr t w where old: "map_of (proposals s) pid' = Some pr"
      and post: "snd (vote now s pid' v' c) =
            s\<lparr>proposals := AList.update pid'
                 (pr\<lparr>tallies := AList.update c (t + w) (tallies pr),
                       voted := insert v' (voted pr)\<rparr>) (proposals s)\<rparr>"
      by blast
    show ?thesis
    proof (cases "pid' = pid")
      case True
      with assms old have "v \<in> voted pr" by (simp add: holder_voted_def)
      with True show ?thesis
        unfolding post by (simp add: holder_voted_def update_conv')
    next
      case False
      with assms show ?thesis
        unfolding post by (simp add: holder_voted_def update_conv')
    qed
  qed
qed

lemma reaches_holder_voted:
  "reaches r s0 s \<Longrightarrow> holder_voted s0 pid v \<Longrightarrow> holder_voted s pid v"
proof (induction rule: reaches.induct)
  case reaches_refl
  then show ?case by simp
next
  case (reaches_add_voter s address weight)
  then show ?case by (simp add: add_voter_holder_voted)
next
  case (reaches_apply s now signature delegator delegatee nonce deadline)
  then show ?case by (simp add: apply_delegation_signature_holder_voted)
next
  case (reaches_create_proposal s now proposal_id title description closes_at)
  then show ?case by (simp add: create_proposal_holder_voted)
next
  case (reaches_vote s now proposal_id voter choice)
  then show ?case by (simp add: vote_holder_voted)
qed

subsection \<open>The scenario ledgers, evaluated\<close>

lemma addr_distinct:
  "addrA \<noteq> addrB" "addrB \<noteq> addrA" "addrA \<noteq> addrC" "addrC \<noteq> addrA"
  "addrB \<noteq> addrC" "addrC \<noteq> addrB" "addrA \<noteq> []" "addrB \<noteq> []" "addrC \<noteq> []"
  by (simp_all add: addrA_def addrB_def addrC_def)

lemma registered_ledger_eq:
  "snd (add_voter (snd (add_voter init_ledger addrA 100)) addrB 50)
     = \<lparr>voter_weight = [(addrA, 100), (addrB, 50)], delegate_of = [],
        nonce_of = [(addrA, 0), (addrB, 0)], proposals = []\<rparr>"
  by (simp add: add_voter_def init_ledger_def to_checksum_address_def addr_distinct)

lemma delegated_ledger_eq:
  "delegated_ledger =
     \<lparr>voter_weight = [(addrA, 100), (addrB, 50)], delegate_of = [(addrA, addrB)],
      nonce_of = [(addrA, 1), (addrB, 0)], proposals = []\<rparr>"
  by (simp add: delegated_ledger_def apply_delegation_signature_unfold add_voter_def
      init_ledger_def to_checksum_address_def signer_named_def get_nonce_def dict_get_def
      would_create_cycle_def would_create_cycle_Nil addr_distinct)

lemma reachable_delegated_ledger: "reachable signer_named delegated_ledger"
  unfolding delegated_ledger_def
  by (intro reachable_apply reachable_add_voter reachable_init)

lemma cycle_walk_AB: "cycle_walk [(addrA, addrB)] addrB {} addrA"
  by (simp add: cycle_walk.simps [of _ _ _ addrA])

lemma cycle_walk_CB: "\<not> cycle_walk [(addrA, addrB)] addrC {} addrB"
  by (simp add: cycle_walk.simps [of _ _ _ addrB] addr_distinct)

lemma resolve_walk_AB:
  "resolve_walk [(addrA, addrB)] {} addrA = addrB"
  "resolve_walk [(addrA, addrB)] {} addrB = addrB"
  by (simp_all add: resolve_walk.simps [of _ _ addrA] resolve_walk.simps [of _ _ addrB]
      addr_distinct)

lemma resolve_delegated:
  "resolve_final_delegate delegated_ledger addrA = addrB"
  "resolve_final_delegate delegated_ledger addrB = addrB"
  by (simp_all add: resolve_final_delegate_def to_checksum_address_def delegated_ledger_eq
      resolve_walk_AB)

lemma power_map_delegated:
  "get_effective_voting_power_map delegated_ledger = [(addrB, 150)]"
  by (simp add: get_effective_voting_power_map_def resolve_final_delegate_def
      to_checksum_address_def delegated_ledger_eq resolve_walk_AB dict_get_def)

lemma voting_ledger_eq:
  "voting_ledger = delegated_ledger\<lparr>proposals :=
      [(''P1'', \<lparr>p_title = ''Title'', p_description = ''Text'', p_closes_at = 5000,
                tallies = [(''yes'', 0), (''no'', 0), (''abstain'', 0)], voted = {}\<rparr>)]\<rparr>"
  by (simp add: voting_ledger_def create_proposal_def delegated_ledger_eq)

lemma reachable_voting_ledger: "reachable signer_named voting_ledger"
  unfolding voting_ledger_def
  by (intro reachable_create_proposal reachable_delegated_ledger)

lemma resolve_path_cyclic:
  "resolve_path [(addrA, addrB), (addrB, addrA)] {} addrA = [addrA, addrB, addrA]"
  by (simp add: resolve_path.simps [of _ _ addrA] resolve_path.simps [of _ _ addrB] addr_distinct)

section \<open>The claims\<close>

subsection \<open>C1: the delegation edges stay acyclic\<close>

text \<open>
  C1. In every reachable ledger the delegation edges form an acyclic graph. For
  \<open>d \<noteq> e\<close>, \<^verbatim>\<open>_set_delegate\<close> raises \<open>CycleDetected\<close> and leaves the ledger as it was
  whenever the walk of \<^verbatim>\<open>_would_create_cycle\<close> answers True; otherwise it stores the edge
  \<open>d \<rightarrow> e\<close> in place of any edge \<open>d\<close> had. On an acyclic graph the walk answers True
  exactly when \<open>d\<close> can be reached from \<open>e\<close>, and the graph after the call is acyclic.
\<close>

theorem set_delegate_keeps_acyclic:
  "(reachable r s \<longrightarrow> acyclic (edge_rel (delegate_of s)))
   \<and> (d \<noteq> e \<longrightarrow>
        (would_create_cycle s d e \<longrightarrow> set_delegate s d e = (Inl CycleDetected, s))
      \<and> (\<not> would_create_cycle s d e \<longrightarrow>
           set_delegate s d e = (Inr (), s\<lparr>delegate_of := AList.update d e (delegate_of s)\<rparr>)
         \<and> map_of (AList.update d e (delegate_of s)) = (map_of (delegate_of s))(d \<mapsto> e))
      \<and> (acyclic (edge_rel (delegate_of s)) \<longrightarrow>
           (would_create_cycle s d e \<longleftrightarrow> (e, d) \<in> (edge_rel (delegate_of s))\<^sup>+)
         \<and> acyclic (edge_rel (delegate_of (snd (set_delegate s d e))))))"
proof (intro conjI impI)
  assume "reachable r s"
  then show "acyclic (edge_rel (delegate_of s))" by (rule reachable_acyclic)
next
  assume "d \<noteq> e" and "would_create_cycle s d e"
  then show "set_delegate s d e = (Inl CycleDetected, s)"
    by (simp add: set_delegate_def to_checksum_address_def)
next
  assume "d \<noteq> e" and "\<not> would_create_cycle s d e"
  then show "set_delegate s d e = (Inr (), s\<lparr>delegate_of := AList.update d e (delegate_of s)\<rparr>)"
    by (simp add: set_delegate_def to_checksum_address_def)
next
  show "map_of (AList.update d e (delegate_of s)) = (map_of (delegate_of s))(d \<mapsto> e)"
    by (rule update_conv')
next
  assume "d \<noteq> e" and "acyclic (edge_rel (delegate_of s))"
  then show "would_create_cycle s d e \<longleftrightarrow> (e, d) \<in> (edge_rel (delegate_of s))\<^sup>+"
    by (simp add: would_create_cycle_iff)
next
  assume "acyclic (edge_rel (delegate_of s))"
  then show "acyclic (edge_rel (delegate_of (snd (set_delegate s d e))))"
    by (rule set_delegate_acyclic)
qed

text \<open>The same at a concrete ledger, with the hypotheses discharged.\<close>

theorem set_delegate_keeps_acyclic_witness:
  "acyclic (edge_rel (delegate_of delegated_ledger))
   \<and> set_delegate delegated_ledger addrB addrA = (Inl CycleDetected, delegated_ledger)
   \<and> set_delegate delegated_ledger addrC addrB =
       (Inr (), delegated_ledger\<lparr>delegate_of := [(addrA, addrB), (addrC, addrB)]\<rparr>)
   \<and> acyclic (edge_rel (delegate_of (snd (set_delegate delegated_ledger addrC addrB))))"
proof -
  have cyc: "would_create_cycle delegated_ledger addrB addrA"
    by (simp add: would_create_cycle_def to_checksum_address_def delegated_ledger_eq cycle_walk_AB)
  have nocyc: "\<not> would_create_cycle delegated_ledger addrC addrB"
    by (simp add: would_create_cycle_def to_checksum_address_def delegated_ledger_eq cycle_walk_CB)
  have upd: "AList.update addrC addrB (delegate_of delegated_ledger) = [(addrA, addrB), (addrC, addrB)]"
    by (simp add: delegated_ledger_eq addr_distinct)
  note a = set_delegate_keeps_acyclic [of signer_named delegated_ledger addrB addrA]
  note b = set_delegate_keeps_acyclic [of signer_named delegated_ledger addrC addrB]
  from a reachable_delegated_ledger have 1: "acyclic (edge_rel (delegate_of delegated_ledger))"
    by blast
  from a cyc addr_distinct have 2: "set_delegate delegated_ledger addrB addrA = (Inl CycleDetected, delegated_ledger)"
    by blast
  from b nocyc addr_distinct have 3: "set_delegate delegated_ledger addrC addrB =
       (Inr (), delegated_ledger\<lparr>delegate_of := AList.update addrC addrB (delegate_of delegated_ledger)\<rparr>)"
    by blast
  from b 1 addr_distinct have 4: "acyclic (edge_rel (delegate_of (snd (set_delegate delegated_ledger addrC addrB))))"
    by blast
  from 1 2 3 4 upd show ?thesis by simp
qed

subsection \<open>C2: a delegation update is all or nothing\<close>

text \<open>
  C2. \<^verbatim>\<open>apply_delegation_signature\<close> leaves the whole ledger as it was whenever it
  raises. It raises \<open>Expired\<close> exactly when the time is past the deadline, then
  \<open>NonceMismatch\<close> exactly when the nonce is not the delegator's current one, then
  \<open>SignatureInvalid\<close> when recovery fails and \<open>NotDelegator\<close> when the recovered signer
  is not the delegator, then \<open>CycleDetected\<close> exactly when \<^verbatim>\<open>_set_delegate\<close> does. It
  succeeds exactly when every check passed, and then the edges are those
  \<^verbatim>\<open>_set_delegate\<close> leaves and the delegator's nonce is one more than before.
\<close>

theorem apply_delegation_signature_all_or_nothing:
  "(\<forall>err. fst (apply_delegation_signature r now s sg d e n dl) = Inl err \<longrightarrow>
       snd (apply_delegation_signature r now s sg d e n dl) = s)
   \<and> (fst (apply_delegation_signature r now s sg d e n dl) = Inl Expired \<longleftrightarrow> now > dl)
   \<and> (fst (apply_delegation_signature r now s sg d e n dl) = Inl NonceMismatch \<longleftrightarrow>
        now \<le> dl \<and> n \<noteq> get_nonce s d)
   \<and> (fst (apply_delegation_signature r now s sg d e n dl) = Inl SignatureInvalid \<longleftrightarrow>
        now \<le> dl \<and> n = get_nonce s d
        \<and> r \<lparr>msg_delegator = d, msg_delegatee = e, msg_nonce = n, msg_deadline = dl\<rparr> sg = None)
   \<and> (fst (apply_delegation_signature r now s sg d e n dl) = Inl NotDelegator \<longleftrightarrow>
        now \<le> dl \<and> n = get_nonce s d
        \<and> (\<exists>signer. r \<lparr>msg_delegator = d, msg_delegatee = e, msg_nonce = n, msg_deadline = dl\<rparr> sg
              = Some signer \<and> signer \<noteq> d))
   \<and> (fst (apply_delegation_signature r now s sg d e n dl) = Inl CycleDetected \<longleftrightarrow>
        now \<le> dl \<and> n = get_nonce s d
        \<and> r \<lparr>msg_delegator = d, msg_delegatee = e, msg_nonce = n, msg_deadline = dl\<rparr> sg = Some d
        \<and> fst (set_delegate s d e) = Inl CycleDetected)
   \<and> (fst (apply_delegation_signature r now s sg d e n dl) = Inr () \<longleftrightarrow>
        now \<le> dl \<and> n = get_nonce s d
        \<and> r \<lparr>msg_delegator = d, msg_delegatee = e, msg_nonce = n, msg_deadline = dl\<rparr> sg = Some d
        \<and> fst (set_delegate s d e) = Inr ())
   \<and> (fst (apply_delegation_signature r now s sg d e n dl) = Inr () \<longrightarrow>
        delegate_of (snd (apply_delegation_signature r now s sg d e n dl))
          = delegate_of (snd (set_delegate s d e))
        \<and> nonce_of (snd (apply_delegation_signature r now s sg d e n dl))
          = AList.update d (get_nonce s d + 1) (nonce_of s)
        \<and> get_nonce (snd (apply_delegation_signature r now s sg d e n dl)) d = get_nonce s d + 1)"
proof -
  define v where "v = r \<lparr>msg_delegator = d, msg_delegatee = e, msg_nonce = n, msg_deadline = dl\<rparr> sg"
  show ?thesis
    unfolding apply_delegation_signature_unfold v_def [symmetric]
    by (cases v)
      (simp_all add: set_delegate_def to_checksum_address_def get_nonce_def dict_get_def update_conv')
qed

text \<open>The same at a concrete ledger, with the hypotheses discharged.\<close>

theorem apply_delegation_signature_all_or_nothing_witness:
  "apply_delegation_signature signer_named 1000 delegated_ledger addrB addrB addrA 0 2000
     = (Inl CycleDetected, delegated_ledger)
   \<and> apply_delegation_signature signer_named 1000 delegated_ledger addrA addrA addrB 0 2000
     = (Inl NonceMismatch, delegated_ledger)"
proof -
  note t1 = apply_delegation_signature_all_or_nothing
    [of signer_named 1000 delegated_ledger addrB addrB addrA 0 2000]
  note t2 = apply_delegation_signature_all_or_nothing
    [of signer_named 1000 delegated_ledger addrA addrA addrB 0 2000]
  have cyc: "fst (set_delegate delegated_ledger addrB addrA) = Inl CycleDetected"
    by (simp add: set_delegate_def to_checksum_address_def would_create_cycle_def
        delegated_ledger_eq cycle_walk_AB addr_distinct)
  have nB: "get_nonce delegated_ledger addrB = 0" and nA: "get_nonce delegated_ledger addrA = 1"
    by (simp_all add: get_nonce_def dict_get_def to_checksum_address_def delegated_ledger_eq
        addr_distinct)
  have sig: "signer_named \<lparr>msg_delegator = addrB, msg_delegatee = addrA, msg_nonce = 0,
      msg_deadline = 2000\<rparr> addrB = Some addrB"
    by (simp add: signer_named_def addr_distinct)
  from t1 cyc nB sig
  have f1: "fst (apply_delegation_signature signer_named 1000 delegated_ledger addrB addrB addrA 0 2000)
      = Inl CycleDetected"
    by simp
  with t1
  have s1: "snd (apply_delegation_signature signer_named 1000 delegated_ledger addrB addrB addrA 0 2000)
      = delegated_ledger"
    by blast
  from t2 nA
  have f2: "fst (apply_delegation_signature signer_named 1000 delegated_ledger addrA addrA addrB 0 2000)
      = Inl NonceMismatch"
    by simp
  with t2
  have s2: "snd (apply_delegation_signature signer_named 1000 delegated_ledger addrA addrA addrB 0 2000)
      = delegated_ledger"
    by blast
  from f1 s1 f2 s2 show ?thesis by (simp add: prod_eq_iff)
qed

subsection \<open>C3: effective power after one delegation\<close>

text \<open>
  C3. The specification's scenario has A of weight 100, B of weight 50 and A's
  delegation to B accepted, and gives B the effective power 150 and A the effective
  power 0. The second half fails:
  \<^verbatim>\<open>get_effective_voting_power\<close> resolves the final delegate of its argument first, so
  for A it looks up B's bucket. As amended: after the two registrations and the
  accepted update, the effective power of B is 150 and that of A is 150 as well.
\<close>

theorem effective_power_after_delegation:
  assumes "a \<noteq> b" and "now \<le> dl"
    and "r \<lparr>msg_delegator = a, msg_delegatee = b, msg_nonce = 0, msg_deadline = dl\<rparr> sg = Some a"
  shows "fst (apply_delegation_signature r now
                (snd (add_voter (snd (add_voter init_ledger a 100)) b 50)) sg a b 0 dl) = Inr ()
         \<and> voter_weight (snd (apply_delegation_signature r now
                (snd (add_voter (snd (add_voter init_ledger a 100)) b 50)) sg a b 0 dl))
             = [(a, 100), (b, 50)]
         \<and> delegate_of (snd (apply_delegation_signature r now
                (snd (add_voter (snd (add_voter init_ledger a 100)) b 50)) sg a b 0 dl))
             = [(a, b)]
         \<and> get_effective_voting_power (snd (apply_delegation_signature r now
                (snd (add_voter (snd (add_voter init_ledger a 100)) b 50)) sg a b 0 dl)) b = 150
         \<and> get_effective_voting_power (snd (apply_delegation_signature r now
                (snd (add_voter (snd (add_voter init_ledger a 100)) b 50)) sg a b 0 dl)) a = 150"
proof -
  from assms(1) have ba: "b \<noteq> a" by blast
  have pre: "snd (add_voter (snd (add_voter init_ledger a 100)) b 50)
      = \<lparr>voter_weight = [(a, 100), (b, 50)], delegate_of = [],
         nonce_of = [(a, 0), (b, 0)], proposals = []\<rparr>"
    using assms(1) ba by (simp add: add_voter_def init_ledger_def to_checksum_address_def)
  have post: "apply_delegation_signature r now
                (snd (add_voter (snd (add_voter init_ledger a 100)) b 50)) sg a b 0 dl
      = (Inr (), \<lparr>voter_weight = [(a, 100), (b, 50)], delegate_of = [(a, b)],
         nonce_of = [(a, 1), (b, 0)], proposals = []\<rparr>)"
    using assms ba unfolding pre
    by (simp add: apply_delegation_signature_unfold get_nonce_def dict_get_def
        to_checksum_address_def would_create_cycle_def would_create_cycle_Nil)
  have ra: "resolve_walk [(a, b)] {} a = b"
    using assms(1) ba by (simp add: resolve_walk.simps [of _ _ a] resolve_walk.simps [of _ _ b])
  have rb: "resolve_walk [(a, b)] {} b = b"
    using assms(1) ba by (simp add: resolve_walk.simps [of _ _ b])
  show ?thesis
    unfolding post using assms(1) ba
    by (simp add: get_effective_voting_power_def get_effective_voting_power_map_def
        resolve_final_delegate_def to_checksum_address_def ra rb dict_get_def)
qed

text \<open>The same at a concrete ledger, with the hypotheses discharged.\<close>

theorem effective_power_after_delegation_witness:
  "get_effective_voting_power delegated_ledger addrB = 150
   \<and> get_effective_voting_power delegated_ledger addrA = 150"
proof -
  have sig: "signer_named \<lparr>msg_delegator = addrA, msg_delegatee = addrB, msg_nonce = 0,
      msg_deadline = 2000\<rparr> addrA = Some addrA"
    by (simp add: signer_named_def addr_distinct)
  have "addrA \<noteq> addrB" and "(1000::int) \<le> 2000" by (simp_all add: addr_distinct)
  from effective_power_after_delegation [where r = signer_named and sg = addrA, OF this sig]
  show ?thesis
    by (simp add: delegated_ledger_def)
qed

text \<open>The scenario as the specification states it fails at that ledger.\<close>

theorem effective_power_of_delegator_counterexample:
  "\<not> (get_effective_voting_power delegated_ledger addrB = 150
      \<and> get_effective_voting_power delegated_ledger addrA = 0)"
  by (simp add: get_effective_voting_power_def resolve_delegated power_map_delegated dict_get_def)

subsection \<open>C4: weight conservation\<close>

text \<open>
  C4. In every reachable ledger the values of \<^verbatim>\<open>get_effective_voting_power_map\<close> add up
  to the sum of the positive entries of \<open>voter_weight\<close>. Both association lists have
  distinct keys, so their entries are the entries of the dictionaries they stand for.
\<close>

theorem weight_conservation:
  assumes "reachable r s"
  shows "sum_values (get_effective_voting_power_map s)
           = sum_list (filter (\<lambda>w. 0 < w) (map snd (voter_weight s)))
         \<and> distinct (map fst (voter_weight s))
         \<and> distinct (map fst (get_effective_voting_power_map s))"
proof -
  from assms have "nonneg_weights s" by (rule reachable_nonneg_weights)
  then have "filter (\<lambda>w. w \<noteq> 0) (map snd (voter_weight s))
             = filter (\<lambda>w. 0 < w) (map snd (voter_weight s))"
    by (intro filter_cong) (auto simp: nonneg_weights_def)
  moreover have "sum_values (get_effective_voting_power_map s)
           = sum_list (filter (\<lambda>w. w \<noteq> 0) (map snd (voter_weight s)))"
    unfolding get_effective_voting_power_map_def
    using sum_values_foldl [of "resolve_final_delegate s" "[]" "voter_weight s"]
    by (simp add: sum_values_def)
  ultimately have "sum_values (get_effective_voting_power_map s)
           = sum_list (filter (\<lambda>w. 0 < w) (map snd (voter_weight s)))"
    by simp
  moreover have "distinct (map fst (get_effective_voting_power_map s))"
    unfolding get_effective_voting_power_map_def by (rule distinct_power_fold) simp
  ultimately show ?thesis using reachable_distinct_voters [OF assms] by simp
qed

text \<open>The same at a concrete ledger, with the hypotheses discharged.\<close>

theorem weight_conservation_witness:
  "sum_values (get_effective_voting_power_map delegated_ledger) = 150
   \<and> sum_list (filter (\<lambda>w. 0 < w) (map snd (voter_weight delegated_ledger))) = 150"
  using weight_conservation [OF reachable_delegated_ledger]
  by (simp add: delegated_ledger_eq)

subsection \<open>C5: an accepted update advances one nonce by one\<close>

text \<open>
  C5. When \<^verbatim>\<open>apply_delegation_signature\<close> succeeds for delegator \<open>d\<close>, the nonce of
  \<open>d\<close> is one more than before, the nonce of every other address (and its entry in
  \<open>nonce_of\<close>) is unchanged, and so are the voter weights and the proposals.
\<close>

theorem nonce_advances_by_one:
  assumes "apply_delegation_signature r now s sg d e n dl = (Inr u, s')"
  shows "get_nonce s' d = get_nonce s d + 1
         \<and> (\<forall>a. a \<noteq> d \<longrightarrow> get_nonce s' a = get_nonce s a
                \<and> map_of (nonce_of s') a = map_of (nonce_of s) a)
         \<and> voter_weight s' = voter_weight s
         \<and> proposals s' = proposals s"
proof -
  from assms have ok: "fst (apply_delegation_signature r now s sg d e n dl) = Inr ()"
    and s': "s' = snd (apply_delegation_signature r now s sg d e n dl)"
    by simp_all
  from ok have n: "n = get_nonce s d"
    by (auto simp: apply_delegation_signature_unfold split: if_splits option.splits)
  from ok have "nonce_of s' = AList.update d (get_nonce s d + 1) (nonce_of s)"
    unfolding s'
    by (auto simp: apply_delegation_signature_unfold split: if_splits option.splits)
  then have "get_nonce s' d = get_nonce s d + 1"
    and "\<forall>a. a \<noteq> d \<longrightarrow> get_nonce s' a = get_nonce s a
                \<and> map_of (nonce_of s') a = map_of (nonce_of s) a"
    by (simp_all add: get_nonce_def dict_get_def to_checksum_address_def update_conv')
  with apply_delegation_signature_frame [of r now s sg d e n dl] s' show ?thesis by simp
qed

text \<open>The same at a concrete ledger, with the hypotheses discharged.\<close>

theorem nonce_advances_by_one_witness:
  "get_nonce delegated_ledger addrA = 1
   \<and> get_nonce delegated_ledger addrB = 0
   \<and> voter_weight delegated_ledger = [(addrA, 100), (addrB, 50)]
   \<and> proposals delegated_ledger = []"
proof -
  let ?pre = "snd (add_voter (snd (add_voter init_ledger addrA 100)) addrB 50)"
  have ok: "fst (apply_delegation_signature signer_named 1000 ?pre addrA addrA addrB 0 2000) = Inr ()"
    unfolding registered_ledger_eq
    by (simp add: apply_delegation_signature_unfold signer_named_def get_nonce_def dict_get_def
        to_checksum_address_def would_create_cycle_def would_create_cycle_Nil addr_distinct)
  then have app: "apply_delegation_signature signer_named 1000 ?pre addrA addrA addrB 0 2000
      = (Inr (), delegated_ledger)"
    by (simp add: prod_eq_iff delegated_ledger_def)
  have pre: "get_nonce ?pre addrA = 0" "get_nonce ?pre addrB = 0"
    "voter_weight ?pre = [(addrA, 100), (addrB, 50)]" "proposals ?pre = []"
    unfolding registered_ledger_eq
    by (simp_all add: get_nonce_def dict_get_def to_checksum_address_def addr_distinct)
  from nonce_advances_by_one [OF app] pre addr_distinct show ?thesis by simp
qed

subsection \<open>C6: one vote per final holder\<close>

text \<open>
  C6. A call of \<^verbatim>\<open>vote\<close> that raises, whatever it raises, leaves the ledger as it was.
  On a stored proposal that is still open and with a valid choice, in a reachable
  ledger, \<^verbatim>\<open>vote\<close> runs its checks in order: it raises \<open>DelegatedVoterCannotVote\<close> exactly
  when the voter is not its own final delegate; for a voter that is, it raises
  \<open>AlreadyVoted\<close> exactly when the voter is in the proposal's voted set, and
  \<open>NoVotingPower\<close> exactly when it is not and its effective power is at most 0; otherwise
  it adds the power to the tally of the choice, puts the voter into the voted set and
  returns the power with the tallies. After that, any further vote of the same voter on
  the proposal while it is open raises \<open>AlreadyVoted\<close>; and in every ledger the run
  reaches from there, whatever is called in between, every vote of that voter on that
  proposal raises and leaves the ledger as it was, so the holder's power enters the
  tallies of the proposal once and never again.
\<close>

theorem vote_once_per_final_holder:
  "(\<forall>err. fst (vote now s pid voter choice) = Inl err \<longrightarrow>
       snd (vote now s pid voter choice) = s)
   \<and> (reachable r s \<and> map_of (proposals s) pid = Some pr
        \<and> now \<le> p_closes_at pr \<and> choice \<in> set [''yes'', ''no'', ''abstain''] \<longrightarrow>
      (fst (vote now s pid voter choice) = Inl DelegatedVoterCannotVote
            \<longleftrightarrow> resolve_final_delegate s voter \<noteq> voter)
     \<and> (resolve_final_delegate s voter = voter \<longrightarrow>
          (fst (vote now s pid voter choice) = Inl AlreadyVoted \<longleftrightarrow> voter \<in> voted pr)
        \<and> (fst (vote now s pid voter choice) = Inl NoVotingPower
              \<longleftrightarrow> voter \<notin> voted pr \<and> get_effective_voting_power s voter \<le> 0)
        \<and> (voter \<notin> voted pr \<and> 0 < get_effective_voting_power s voter \<longrightarrow>
              (\<exists>t. map_of (tallies pr) choice = Some t
                 \<and> vote now s pid voter choice =
                     (Inr (get_effective_voting_power s voter,
                           AList.update choice (t + get_effective_voting_power s voter) (tallies pr)),
                      s\<lparr>proposals := AList.update pid
                           (pr\<lparr>tallies := AList.update choice
                                   (t + get_effective_voting_power s voter) (tallies pr),
                               voted := insert voter (voted pr)\<rparr>) (proposals s)\<rparr>))
            \<and> (\<forall>now' choice'. now' \<le> p_closes_at pr
                   \<and> choice' \<in> set [''yes'', ''no'', ''abstain''] \<longrightarrow>
                   fst (vote now' (snd (vote now s pid voter choice)) pid voter choice')
                     = Inl AlreadyVoted)
            \<and> (\<forall>s2 now' choice'. reaches r (snd (vote now s pid voter choice)) s2 \<longrightarrow>
                   (\<exists>err. vote now' s2 pid voter choice' = (Inl err, s2))))))"
proof -
  have unchanged: "\<forall>err. fst (vote now s pid voter choice) = Inl err \<longrightarrow>
           snd (vote now s pid voter choice) = s"
    by (blast intro: vote_failure_unchanged)
  have body: "(fst (vote now s pid voter choice) = Inl DelegatedVoterCannotVote
            \<longleftrightarrow> resolve_final_delegate s voter \<noteq> voter)
     \<and> (resolve_final_delegate s voter = voter \<longrightarrow>
          (fst (vote now s pid voter choice) = Inl AlreadyVoted \<longleftrightarrow> voter \<in> voted pr)
        \<and> (fst (vote now s pid voter choice) = Inl NoVotingPower
              \<longleftrightarrow> voter \<notin> voted pr \<and> get_effective_voting_power s voter \<le> 0)
        \<and> (voter \<notin> voted pr \<and> 0 < get_effective_voting_power s voter \<longrightarrow>
              (\<exists>t. map_of (tallies pr) choice = Some t
                 \<and> vote now s pid voter choice =
                     (Inr (get_effective_voting_power s voter,
                           AList.update choice (t + get_effective_voting_power s voter) (tallies pr)),
                      s\<lparr>proposals := AList.update pid
                           (pr\<lparr>tallies := AList.update choice
                                   (t + get_effective_voting_power s voter) (tallies pr),
                               voted := insert voter (voted pr)\<rparr>) (proposals s)\<rparr>))
            \<and> (\<forall>now' choice'. now' \<le> p_closes_at pr
                   \<and> choice' \<in> set [''yes'', ''no'', ''abstain''] \<longrightarrow>
                   fst (vote now' (snd (vote now s pid voter choice)) pid voter choice')
                     = Inl AlreadyVoted)
            \<and> (\<forall>s2 now' choice'. reaches r (snd (vote now s pid voter choice)) s2 \<longrightarrow>
                   (\<exists>err. vote now' s2 pid voter choice' = (Inl err, s2)))))"
    if h: "reachable r s" "map_of (proposals s) pid = Some pr"
      "now \<le> p_closes_at pr" "choice \<in> set [''yes'', ''no'', ''abstain'']"
  proof -
    from h(1) have "tallies_complete s" by (rule reachable_tallies_complete)
    with h(2) have keys: "\<forall>c \<in> set [''yes'', ''no'', ''abstain'']. map_of (tallies pr) c \<noteq> None"
      unfolding tallies_complete_def by blast
    with h(4) obtain t where t: "map_of (tallies pr) choice = Some t" by blast
    note v = vote_unfold [OF h(2) h(4) h(3) t, of voter]
    have first: "fst (vote now s pid voter choice) = Inl DelegatedVoterCannotVote
              \<longleftrightarrow> resolve_final_delegate s voter \<noteq> voter"
      unfolding v by auto
    have rest: "(fst (vote now s pid voter choice) = Inl AlreadyVoted \<longleftrightarrow> voter \<in> voted pr)
          \<and> (fst (vote now s pid voter choice) = Inl NoVotingPower
                \<longleftrightarrow> voter \<notin> voted pr \<and> get_effective_voting_power s voter \<le> 0)
          \<and> (voter \<notin> voted pr \<and> 0 < get_effective_voting_power s voter \<longrightarrow>
                (\<exists>t. map_of (tallies pr) choice = Some t
                   \<and> vote now s pid voter choice =
                       (Inr (get_effective_voting_power s voter,
                             AList.update choice (t + get_effective_voting_power s voter) (tallies pr)),
                        s\<lparr>proposals := AList.update pid
                             (pr\<lparr>tallies := AList.update choice
                                     (t + get_effective_voting_power s voter) (tallies pr),
                                 voted := insert voter (voted pr)\<rparr>) (proposals s)\<rparr>))
              \<and> (\<forall>now' choice'. now' \<le> p_closes_at pr
                     \<and> choice' \<in> set [''yes'', ''no'', ''abstain''] \<longrightarrow>
                     fst (vote now' (snd (vote now s pid voter choice)) pid voter choice')
                       = Inl AlreadyVoted)
              \<and> (\<forall>s2 now' choice'. reaches r (snd (vote now s pid voter choice)) s2 \<longrightarrow>
                     (\<exists>err. vote now' s2 pid voter choice' = (Inl err, s2))))"
      if own: "resolve_final_delegate s voter = voter"
    proof -
      have power: "get_effective_voting_power s voter
          = dict_get (get_effective_voting_power_map s) voter 0"
        by (simp add: get_effective_voting_power_def own)
      have a: "fst (vote now s pid voter choice) = Inl AlreadyVoted \<longleftrightarrow> voter \<in> voted pr"
        unfolding v using own by auto
      have b: "fst (vote now s pid voter choice) = Inl NoVotingPower
                \<longleftrightarrow> voter \<notin> voted pr \<and> get_effective_voting_power s voter \<le> 0"
        unfolding v power using own by auto
      have c: "(\<exists>t. map_of (tallies pr) choice = Some t
                   \<and> vote now s pid voter choice =
                       (Inr (get_effective_voting_power s voter,
                             AList.update choice (t + get_effective_voting_power s voter) (tallies pr)),
                        s\<lparr>proposals := AList.update pid
                             (pr\<lparr>tallies := AList.update choice
                                     (t + get_effective_voting_power s voter) (tallies pr),
                                 voted := insert voter (voted pr)\<rparr>) (proposals s)\<rparr>))
              \<and> (\<forall>now' choice'. now' \<le> p_closes_at pr
                     \<and> choice' \<in> set [''yes'', ''no'', ''abstain''] \<longrightarrow>
                     fst (vote now' (snd (vote now s pid voter choice)) pid voter choice')
                       = Inl AlreadyVoted)
              \<and> (\<forall>s2 now' choice'. reaches r (snd (vote now s pid voter choice)) s2 \<longrightarrow>
                     (\<exists>err. vote now' s2 pid voter choice' = (Inl err, s2)))"
        if fresh: "voter \<notin> voted pr" and pos: "0 < get_effective_voting_power s voter"
      proof -
        let ?w = "get_effective_voting_power s voter"
        let ?pr' = "pr\<lparr>tallies := AList.update choice (t + ?w) (tallies pr),
                                 voted := insert voter (voted pr)\<rparr>"
        let ?s' = "s\<lparr>proposals := AList.update pid ?pr' (proposals s)\<rparr>"
        have res: "vote now s pid voter choice
            = (Inr (?w, AList.update choice (t + ?w) (tallies pr)), ?s')"
          unfolding v power using own fresh pos [unfolded power] by simp
        have again: "fst (vote now' ?s' pid voter choice') = Inl AlreadyVoted"
          if "now' \<le> p_closes_at pr" and "choice' \<in> set [''yes'', ''no'', ''abstain'']"
          for now' choice'
        proof -
          have look: "map_of (proposals ?s') pid = Some ?pr'" by (simp add: update_conv')
          have own': "resolve_final_delegate ?s' voter = voter"
            using own by (simp add: resolve_final_delegate_def)
          from that(1) have open_then: "\<not> now' > p_closes_at ?pr'" by simp
          show ?thesis
            unfolding vote_def to_checksum_address_def Let_def look
            using that(2) open_then own' by simp
        qed
        have later: "\<exists>err. vote now' s2 pid voter choice' = (Inl err, s2)"
          if "reaches r ?s' s2" for s2 now' choice'
        proof -
          have "holder_voted ?s' pid voter"
            by (simp add: holder_voted_def update_conv')
          with that have "holder_voted s2 pid voter" by (rule reaches_holder_voted)
          then show ?thesis by (rule vote_voted_fails)
        qed
        from res again later t show ?thesis by simp
      qed
      from a b c show ?thesis by blast
    qed
    from first rest show ?thesis by blast
  qed
  from unchanged body show ?thesis by blast
qed

text \<open>The same at a concrete ledger, with the hypotheses discharged.\<close>

theorem vote_once_per_final_holder_witness:
  "fst (vote 1500 voting_ledger ''P1'' addrA ''yes'') = Inl DelegatedVoterCannotVote
   \<and> fst (vote 1500 voting_ledger ''P1'' addrB ''yes'')
       = Inr (150, [(''yes'', 150), (''no'', 0), (''abstain'', 0)])
   \<and> fst (vote 1600 (snd (vote 1500 voting_ledger ''P1'' addrB ''yes'')) ''P1'' addrB ''no'')
       = Inl AlreadyVoted
   \<and> snd (vote 1500 voting_ledger ''P1'' addrA ''yes'') = voting_ledger
   \<and> (\<exists>err. vote 1700
          (snd (add_voter (snd (vote 1500 voting_ledger ''P1'' addrB ''yes'')) addrC 10))
          ''P1'' addrB ''no''
        = (Inl err,
           snd (add_voter (snd (vote 1500 voting_ledger ''P1'' addrB ''yes'')) addrC 10)))"
proof -
  let ?pr = "\<lparr>p_title = ''Title'', p_description = ''Text'', p_closes_at = 5000,
                tallies = [(''yes'', 0), (''no'', 0), (''abstain'', 0)], voted = {}\<rparr>"
  have look: "map_of (proposals voting_ledger) ''P1'' = Some ?pr"
    by (simp add: voting_ledger_eq)
  have open_now: "(1500::int) \<le> p_closes_at ?pr" by simp
  have choice: "''yes'' \<in> set [''yes'', ''no'', ''abstain'']" by simp
  have rA: "resolve_final_delegate voting_ledger addrA = addrB"
    and rB: "resolve_final_delegate voting_ledger addrB = addrB"
    by (simp_all add: voting_ledger_eq delegated_ledger_eq resolve_final_delegate_def
        to_checksum_address_def resolve_walk_AB)
  have pw: "get_effective_voting_power voting_ledger addrB = 150"
    by (simp add: voting_ledger_eq delegated_ledger_eq get_effective_voting_power_def
        get_effective_voting_power_map_def resolve_final_delegate_def to_checksum_address_def
        resolve_walk_AB dict_get_def)
  note tA = vote_once_per_final_holder
    [where r = signer_named and s = voting_ledger and pid = "''P1''" and pr = ?pr
      and now = 1500 and choice = "''yes''" and voter = addrA,
      THEN conjunct2, rule_format, OF conjI [OF reachable_voting_ledger
        conjI [OF look conjI [OF open_now choice]]]]
  note tB = vote_once_per_final_holder
    [where r = signer_named and s = voting_ledger and pid = "''P1''" and pr = ?pr
      and now = 1500 and choice = "''yes''" and voter = addrB,
      THEN conjunct2, rule_format, OF conjI [OF reachable_voting_ledger
        conjI [OF look conjI [OF open_now choice]]]]
  note uA = vote_once_per_final_holder
    [where r = signer_named and s = voting_ledger and pid = "''P1''" and pr = ?pr
      and now = 1500 and choice = "''yes''" and voter = addrA, THEN conjunct1]
  from tA rA addr_distinct
  have 1: "fst (vote 1500 voting_ledger ''P1'' addrA ''yes'') = Inl DelegatedVoterCannotVote"
    by simp
  from tB rB pw
  have 2: "fst (vote 1500 voting_ledger ''P1'' addrB ''yes'')
       = Inr (150, [(''yes'', 150), (''no'', 0), (''abstain'', 0)])"
    by auto
  have fresh: "addrB \<notin> voted ?pr" by simp
  have pos: "0 < get_effective_voting_power voting_ledger addrB" by (simp add: pw)
  from tB rB fresh pos
  have "\<forall>now' choice'. now' \<le> p_closes_at ?pr \<and> choice' \<in> set [''yes'', ''no'', ''abstain'']
      \<longrightarrow> fst (vote now' (snd (vote 1500 voting_ledger ''P1'' addrB ''yes'')) ''P1'' addrB choice')
            = Inl AlreadyVoted"
    by blast
  then have 3: "fst (vote 1600 (snd (vote 1500 voting_ledger ''P1'' addrB ''yes'')) ''P1'' addrB ''no'')
       = Inl AlreadyVoted"
    by simp
  from uA 1 have 4: "snd (vote 1500 voting_ledger ''P1'' addrA ''yes'') = voting_ledger"
    by blast
  have run: "reaches signer_named (snd (vote 1500 voting_ledger ''P1'' addrB ''yes''))
      (snd (add_voter (snd (vote 1500 voting_ledger ''P1'' addrB ''yes'')) addrC 10))"
    by (intro reaches_add_voter reaches_refl)
  from tB rB fresh pos
  have "\<forall>s2 now' choice'.
      reaches signer_named (snd (vote 1500 voting_ledger ''P1'' addrB ''yes'')) s2 \<longrightarrow>
      (\<exists>err. vote now' s2 ''P1'' addrB choice' = (Inl err, s2))"
    by blast
  with run have 5: "\<exists>err. vote 1700
          (snd (add_voter (snd (vote 1500 voting_ledger ''P1'' addrB ''yes'')) addrC 10))
          ''P1'' addrB ''no''
        = (Inl err,
           snd (add_voter (snd (vote 1500 voting_ledger ''P1'' addrB ''yes'')) addrC 10))"
    by blast
  from 1 2 3 4 5 show ?thesis by simp
qed

subsection \<open>C7: self-delegation clears the edge\<close>

text \<open>
  C7. For every ledger and every address \<open>d\<close>, \<^verbatim>\<open>_set_delegate\<close> of \<open>d\<close> to itself
  succeeds, removes the outgoing edge of \<open>d\<close>, leaves every other edge and every other
  field as it was, and \<open>d\<close> is its own final delegate afterwards.
\<close>

theorem self_delegation_clears_edge:
  "set_delegate s d d = (Inr (), s\<lparr>delegate_of := AList.delete d (delegate_of s)\<rparr>)
   \<and> map_of (delegate_of (snd (set_delegate s d d))) d = None
   \<and> (\<forall>a. a \<noteq> d \<longrightarrow>
         map_of (delegate_of (snd (set_delegate s d d))) a = map_of (delegate_of s) a)
   \<and> voter_weight (snd (set_delegate s d d)) = voter_weight s
   \<and> nonce_of (snd (set_delegate s d d)) = nonce_of s
   \<and> proposals (snd (set_delegate s d d)) = proposals s
   \<and> resolve_final_delegate (snd (set_delegate s d d)) d = d"
  by (simp add: set_delegate_def to_checksum_address_def delete_conv'
      resolve_final_delegate_def resolve_walk.simps [of _ "{}" d])

text \<open>The same at a concrete ledger, with the hypotheses discharged.\<close>

theorem self_delegation_clears_edge_witness:
  "set_delegate delegated_ledger addrA addrA = (Inr (), delegated_ledger\<lparr>delegate_of := []\<rparr>)
   \<and> resolve_final_delegate (snd (set_delegate delegated_ledger addrA addrA)) addrA = addrA"
proof -
  note t = self_delegation_clears_edge [of delegated_ledger addrA]
  from t have 1: "set_delegate delegated_ledger addrA addrA
      = (Inr (), delegated_ledger\<lparr>delegate_of := AList.delete addrA (delegate_of delegated_ledger)\<rparr>)"
    by blast
  from t have 2: "resolve_final_delegate (snd (set_delegate delegated_ledger addrA addrA)) addrA = addrA"
    by blast
  have 3: "AList.delete addrA (delegate_of delegated_ledger) = []"
    by (simp add: delegated_ledger_eq)
  from 1 2 3 show ?thesis by simp
qed

subsection \<open>C8: creating a proposal\<close>

text \<open>
  C8. \<^verbatim>\<open>create_proposal\<close> raises \<open>DuplicateProposal\<close> when the id is stored already,
  and for a new id \<open>InvalidClosingTime\<close> when the closing time is not after the current
  time; a call that raises leaves the ledger as it was. Otherwise it stores the proposal
  with all three tallies 0 and an empty voted set, and changes no other proposal.
\<close>

theorem create_proposal_checked:
  "(map_of (proposals s) pid \<noteq> None \<longrightarrow>
      create_proposal now s pid title description closes_at = (Inl DuplicateProposal, s))
   \<and> (map_of (proposals s) pid = None \<and> closes_at \<le> now \<longrightarrow>
      create_proposal now s pid title description closes_at = (Inl InvalidClosingTime, s))
   \<and> (map_of (proposals s) pid = None \<and> now < closes_at \<longrightarrow>
      fst (create_proposal now s pid title description closes_at) = Inr ()
      \<and> map_of (proposals (snd (create_proposal now s pid title description closes_at))) pid
          = Some \<lparr>p_title = title, p_description = description, p_closes_at = closes_at,
                  tallies = [(''yes'', 0), (''no'', 0), (''abstain'', 0)], voted = {}\<rparr>
      \<and> (\<forall>other. other \<noteq> pid \<longrightarrow>
            map_of (proposals (snd (create_proposal now s pid title description closes_at))) other
              = map_of (proposals s) other))
   \<and> (\<forall>err. fst (create_proposal now s pid title description closes_at) = Inl err \<longrightarrow>
         snd (create_proposal now s pid title description closes_at) = s)
   \<and> voter_weight (snd (create_proposal now s pid title description closes_at)) = voter_weight s"
  by (auto simp: create_proposal_def update_conv')

text \<open>The same at a concrete ledger, with the hypotheses discharged.\<close>

theorem create_proposal_checked_witness:
  "create_proposal 1000 init_ledger ''P1'' ''Title'' ''Text'' 999
     = (Inl InvalidClosingTime, init_ledger)
   \<and> create_proposal 1500 voting_ledger ''P1'' ''Title'' ''Text'' 5000
     = (Inl DuplicateProposal, voting_ledger)
   \<and> map_of (proposals voting_ledger) ''P1''
     = Some \<lparr>p_title = ''Title'', p_description = ''Text'', p_closes_at = 5000,
             tallies = [(''yes'', 0), (''no'', 0), (''abstain'', 0)], voted = {}\<rparr>"
proof -
  have 1: "create_proposal 1000 init_ledger ''P1'' ''Title'' ''Text'' 999
     = (Inl InvalidClosingTime, init_ledger)"
    using create_proposal_checked [where s = init_ledger and pid = "''P1''" and closes_at = 999
        and now = 1000 and title = "''Title''" and description = "''Text''"]
    by (simp add: init_ledger_def)
  have 3: "map_of (proposals voting_ledger) ''P1''
     = Some \<lparr>p_title = ''Title'', p_description = ''Text'', p_closes_at = 5000,
             tallies = [(''yes'', 0), (''no'', 0), (''abstain'', 0)], voted = {}\<rparr>"
    using create_proposal_checked [where s = delegated_ledger and pid = "''P1''" and closes_at = 5000
        and now = 1000 and title = "''Title''" and description = "''Text''"]
    by (simp add: voting_ledger_def delegated_ledger_eq)
  have 2: "create_proposal 1500 voting_ledger ''P1'' ''Title'' ''Text'' 5000
     = (Inl DuplicateProposal, voting_ledger)"
    using create_proposal_checked [where s = voting_ledger and pid = "''P1''" and closes_at = 5000
        and now = 1500 and title = "''Title''" and description = "''Text''"] 3
    by simp
  from 1 2 3 show ?thesis by simp
qed

subsection \<open>C9: resolution is bounded\<close>

text \<open>
  C9. \<^verbatim>\<open>_resolve_final_delegate\<close> is a total function of the ledger and the address
  (its loop is \<open>resolve_walk\<close>, defined with its termination proof for every edge
  dictionary, cyclic or not). \<open>resolve_path\<close> lists the addresses the loop visits: it
  starts at the address, each step follows an edge, it ends at the result, and the
  number of edges followed is at most the number of addresses that have an outgoing
  edge. In a reachable ledger the result has no outgoing edge.
\<close>

theorem resolve_final_delegate_bounded:
  "resolve_final_delegate s a = last (resolve_path (delegate_of s) {} a)
   \<and> hd (resolve_path (delegate_of s) {} a) = a
   \<and> (\<forall>i. Suc i < length (resolve_path (delegate_of s) {} a) \<longrightarrow>
         map_of (delegate_of s) (resolve_path (delegate_of s) {} a ! i)
           = Some (resolve_path (delegate_of s) {} a ! Suc i))
   \<and> length (resolve_path (delegate_of s) {} a) - 1 \<le> card (fst ` set (delegate_of s))
   \<and> (reachable r s \<longrightarrow>
         map_of (delegate_of s) (resolve_final_delegate s a) = None
         \<and> (a, resolve_final_delegate s a) \<in> (edge_rel (delegate_of s))\<^sup>*)"
proof (intro conjI allI impI)
  show "resolve_final_delegate s a = last (resolve_path (delegate_of s) {} a)"
    by (simp add: resolve_final_delegate_def to_checksum_address_def last_resolve_path)
  show "hd (resolve_path (delegate_of s) {} a) = a"
    by (rule hd_resolve_path)
  show "length (resolve_path (delegate_of s) {} a) - 1 \<le> card (fst ` set (delegate_of s))"
    using length_resolve_path [of "delegate_of s" "{}" a] by simp
next
  fix i
  assume "Suc i < length (resolve_path (delegate_of s) {} a)"
  then show "map_of (delegate_of s) (resolve_path (delegate_of s) {} a ! i)
           = Some (resolve_path (delegate_of s) {} a ! Suc i)"
    by (rule resolve_path_edges)
next
  assume "reachable r s"
  then have "acyclic (edge_rel (delegate_of s))" by (rule reachable_acyclic)
  then have "map_of (delegate_of s) (resolve_walk (delegate_of s) {} a) = None
         \<and> (a, resolve_walk (delegate_of s) {} a) \<in> (edge_rel (delegate_of s))\<^sup>*"
    by (rule resolve_walk_acyclic) simp
  then show "map_of (delegate_of s) (resolve_final_delegate s a) = None"
    and "(a, resolve_final_delegate s a) \<in> (edge_rel (delegate_of s))\<^sup>*"
    by (simp_all add: resolve_final_delegate_def to_checksum_address_def)
qed

text \<open>The same at a concrete ledger, with the hypotheses discharged.\<close>

theorem resolve_final_delegate_bounded_witness:
  "resolve_final_delegate cyclic_ledger addrA = addrA
   \<and> length (resolve_path (delegate_of cyclic_ledger) {} addrA) - 1 \<le> 2
   \<and> resolve_final_delegate delegated_ledger addrA = addrB
   \<and> map_of (delegate_of delegated_ledger) addrB = None"
proof -
  have keys: "fst ` set (delegate_of cyclic_ledger) = {addrA, addrB}"
    by (simp add: cyclic_ledger_def)
  then have card: "card (fst ` set (delegate_of cyclic_ledger)) = 2"
    by (simp add: addr_distinct)
  have path: "resolve_path (delegate_of cyclic_ledger) {} addrA = [addrA, addrB, addrA]"
    by (simp add: cyclic_ledger_def resolve_path_cyclic)
  from resolve_final_delegate_bounded [of cyclic_ledger addrA signer_named] path card
  have 1: "resolve_final_delegate cyclic_ledger addrA = addrA
     \<and> length (resolve_path (delegate_of cyclic_ledger) {} addrA) - 1 \<le> 2"
    by simp
  from resolve_final_delegate_bounded [of delegated_ledger addrA signer_named]
    reachable_delegated_ledger
  have "map_of (delegate_of delegated_ledger) (resolve_final_delegate delegated_ledger addrA) = None"
    by blast
  with 1 resolve_delegated show ?thesis by simp
qed

subsection \<open>C10: unregistered addresses can delegate, hold power and vote\<close>

text \<open>
  C10. Neither party of a delegation needs an entry in \<open>voter_weight\<close>: on the empty
  ledger an update from \<open>a\<close> to \<open>b\<close> with a valid signature succeeds. When only \<open>a\<close>
  is registered, with weight \<open>w > 0\<close>, the update succeeds, \<open>b\<close> still has no weight
  entry, the power map is exactly \<open>b \<mapsto> w\<close>, and \<open>b\<close> votes with power \<open>w\<close>.
\<close>

theorem unregistered_delegatee_holds_power:
  assumes "a \<noteq> b" and "0 < w" and "now \<le> dl" and "now < closes_at"
    and "r \<lparr>msg_delegator = a, msg_delegatee = b, msg_nonce = 0, msg_deadline = dl\<rparr> sg = Some a"
  shows "fst (apply_delegation_signature r now init_ledger sg a b 0 dl) = Inr ()
     \<and> (let s1 = snd (add_voter init_ledger a w);
             s2 = snd (apply_delegation_signature r now s1 sg a b 0 dl);
             s3 = snd (create_proposal now s2 pid title description closes_at)
         in map_of (voter_weight s1) b = None
          \<and> fst (apply_delegation_signature r now s1 sg a b 0 dl) = Inr ()
          \<and> map_of (voter_weight s2) b = None
          \<and> get_effective_voting_power_map s2 = [(b, w)]
          \<and> fst (vote now s3 pid b ''yes'')
               = Inr (w, [(''yes'', w), (''no'', 0), (''abstain'', 0)]))"
proof -
  from assms(1) have ba: "b \<noteq> a" by blast
  have unreg: "fst (apply_delegation_signature r now init_ledger sg a b 0 dl) = Inr ()"
    using assms ba
    by (simp add: apply_delegation_signature_unfold get_nonce_def dict_get_def init_ledger_def
        to_checksum_address_def would_create_cycle_def would_create_cycle_Nil)
  have s1: "snd (add_voter init_ledger a w)
      = \<lparr>voter_weight = [(a, w)], delegate_of = [], nonce_of = [(a, 0)], proposals = []\<rparr>"
    using assms(2) by (simp add: add_voter_def init_ledger_def to_checksum_address_def)
  have s2: "apply_delegation_signature r now
       \<lparr>voter_weight = [(a, w)], delegate_of = [], nonce_of = [(a, 0)], proposals = []\<rparr>
       sg a b 0 dl
      = (Inr (), \<lparr>voter_weight = [(a, w)], delegate_of = [(a, b)], nonce_of = [(a, 1)],
                  proposals = []\<rparr>)"
    using assms ba
    by (simp add: apply_delegation_signature_unfold get_nonce_def dict_get_def
        to_checksum_address_def would_create_cycle_def would_create_cycle_Nil)
  have ra: "resolve_walk [(a, b)] {} a = b"
    using assms(1) ba by (simp add: resolve_walk.simps [of _ _ a] resolve_walk.simps [of _ _ b])
  have rb: "resolve_walk [(a, b)] {} b = b"
    using assms(1) ba by (simp add: resolve_walk.simps [of _ _ b])
  have pm: "get_effective_voting_power_map
       \<lparr>voter_weight = [(a, w)], delegate_of = [(a, b)], nonce_of = [(a, 1)], proposals = ps\<rparr>
      = [(b, w)]" for ps
    using assms(2)
    by (simp add: get_effective_voting_power_map_def resolve_final_delegate_def
        to_checksum_address_def ra dict_get_def)
  have s3: "snd (create_proposal now
       \<lparr>voter_weight = [(a, w)], delegate_of = [(a, b)], nonce_of = [(a, 1)], proposals = []\<rparr>
       pid title description closes_at)
     = \<lparr>voter_weight = [(a, w)], delegate_of = [(a, b)], nonce_of = [(a, 1)],
        proposals = [(pid, \<lparr>p_title = title, p_description = description,
           p_closes_at = closes_at, tallies = [(''yes'', 0), (''no'', 0), (''abstain'', 0)],
           voted = {}\<rparr>)]\<rparr>"
    using assms(4) by (simp add: create_proposal_def)
  have v: "fst (vote now
      \<lparr>voter_weight = [(a, w)], delegate_of = [(a, b)], nonce_of = [(a, 1)],
        proposals = [(pid, \<lparr>p_title = title, p_description = description,
           p_closes_at = closes_at, tallies = [(''yes'', 0), (''no'', 0), (''abstain'', 0)],
           voted = {}\<rparr>)]\<rparr> pid b ''yes'')
     = Inr (w, [(''yes'', w), (''no'', 0), (''abstain'', 0)])"
    using assms(2,4)
    by (simp add: vote_def Let_def to_checksum_address_def resolve_final_delegate_def rb pm
        dict_get_def)
  show ?thesis
    unfolding Let_def s1 s2 snd_conv fst_conv s3
    using unreg ba pm [of "[]"] v by simp
qed

text \<open>The same at a concrete ledger, with the hypotheses discharged.\<close>

theorem unregistered_delegatee_holds_power_witness:
  "fst (apply_delegation_signature signer_named 1000 init_ledger addrA addrA addrB 0 2000) = Inr ()
   \<and> get_effective_voting_power_map
        (snd (apply_delegation_signature signer_named 1000
           (snd (add_voter init_ledger addrA 100)) addrA addrA addrB 0 2000))
       = [(addrB, 100)]
   \<and> fst (vote 1000
        (snd (create_proposal 1000
           (snd (apply_delegation_signature signer_named 1000
              (snd (add_voter init_ledger addrA 100)) addrA addrA addrB 0 2000))
           ''P1'' ''Title'' ''Text'' 5000))
        ''P1'' addrB ''yes'')
       = Inr (100, [(''yes'', 100), (''no'', 0), (''abstain'', 0)])"
proof -
  have sig: "signer_named \<lparr>msg_delegator = addrA, msg_delegatee = addrB, msg_nonce = 0,
      msg_deadline = 2000\<rparr> addrA = Some addrA"
    by (simp add: signer_named_def addr_distinct)
  have "addrA \<noteq> addrB" and "(0::int) < 100" and "(1000::int) \<le> 2000" and "(1000::int) < 5000"
    by (simp_all add: addr_distinct)
  from unregistered_delegatee_holds_power
    [where r = signer_named and sg = addrA and pid = "''P1''" and title = "''Title''"
      and description = "''Text''", OF this sig]
  show ?thesis by (simp add: Let_def)
qed

end
